theory Spec2Isabelle
  imports Main "HOL-Library.Word" "HOL-Library.Multiset"
begin

section \<open>Machine integers and errors\<close>

text \<open>
  The source computes every count and displacement in C++ \<open>int\<close> or \<open>unsigned\<close>.
  Both are 32-bit words here: \<open>+\<close>, \<open>-\<close> and \<open>*\<close> wrap, \<open><\<close> and \<open>div\<close> on words
  are the unsigned ones, and \<open>sint\<close> reads a word as a signed \<open>int\<close>. Signed overflow,
  undefined in C++, is the wrap-around of two's complement here.
\<close>

type_synonym c_int = "32 word"
type_synonym c_unsigned = "32 word"

datatype error = Assertion_failed | Out_of_bounds | Bad_alloc | Mpi_error

text \<open>All ranks run the same program; the job fails as soon as one rank fails.\<close>

primrec collect :: "(error + 'a) list \<Rightarrow> error + 'a list" where
  "collect [] = Inr []"
| "collect (r # rs) =
     (case r of
        Inl e \<Rightarrow> Inl e
      | Inr x \<Rightarrow> (case collect rs of Inl e \<Rightarrow> Inl e | Inr xs \<Rightarrow> Inr (x # xs)))"

section \<open>exclusive_sum and interval_overlap\<close>

text \<open>
  \<open>sums[0] = 0; sums[i] = sums[i-1] + arr[i-1]\<close> for \<open>1 \<le> i < n\<close>, in \<open>int\<close> arithmetic.
  Every call site passes \<open>n = numprocs \<ge> 2\<close> and an array of \<open>n\<close> counts (for \<open>n = 0\<close>
  the source would write \<open>sums[0]\<close> past an empty array).
\<close>

primrec sums_from :: "c_int \<Rightarrow> c_int list \<Rightarrow> c_int list" where
  "sums_from s [] = [s]"
| "sums_from s (a # as) = s # sums_from (s + a) as"

definition exclusive_sum :: "c_int list \<Rightarrow> nat \<Rightarrow> c_int list" where
  "exclusive_sum arr n = sums_from 0 (take (n - 1) arr)"

definition interval_overlap ::
  "c_unsigned \<Rightarrow> c_unsigned \<Rightarrow> c_unsigned \<Rightarrow> c_unsigned \<Rightarrow> c_unsigned" where
  "interval_overlap l1 r1 l2 r2 =
     (let (l1, r1, l2, r2) = (if l2 < l1 then (l2, r2, l1, r1) else (l1, r1, l2, r2))
      in if r1 \<le> l2 then 0
         else if r1 \<ge> r2 then r2 - l2
         else r1 - l2)"

section \<open>The standard library: comparators, std::sort, std::lower_bound\<close>

text \<open>
  The comparator \<open>cmp\<close> (\<open>comp\<close> in the source) is the caller's "less than"; the
  standard library requires it to be a strict weak ordering. A sequence is sorted by
  \<open>cmp\<close> when no later element is less than an earlier one.
\<close>

definition strict_weak_order :: "('a \<Rightarrow> 'a \<Rightarrow> bool) \<Rightarrow> bool" where
  "strict_weak_order cmp \<longleftrightarrow>
     (\<forall>x. \<not> cmp x x) \<and>
     (\<forall>x y z. cmp x y \<longrightarrow> cmp y z \<longrightarrow> cmp x z) \<and>
     (\<forall>x y z. \<not> cmp x y \<longrightarrow> \<not> cmp y z \<longrightarrow> \<not> cmp x z)"

definition sorted_by :: "('a \<Rightarrow> 'a \<Rightarrow> bool) \<Rightarrow> 'a list \<Rightarrow> bool" where
  "sorted_by cmp xs = sorted_wrt (\<lambda>x y. \<not> cmp y x) xs"

text \<open>
  \<open>std::sort\<close> is a parameter \<open>srt\<close> of the model; all that is known of it is its contract:
  the result is a permutation of the input and is sorted by \<open>cmp\<close>.
\<close>

definition std_sort_contract :: "('a \<Rightarrow> 'a \<Rightarrow> bool) \<Rightarrow> ('a list \<Rightarrow> 'a list) \<Rightarrow> bool" where
  "std_sort_contract cmp srt \<longleftrightarrow> (\<forall>xs. mset (srt xs) = mset xs \<and> sorted_by cmp (srt xs))"

text \<open>
  \<open>std::sort(buf, buf + n, cmp)\<close> on the first \<open>n\<close> elements of a buffer.
\<close>

definition sort_range :: "('a list \<Rightarrow> 'a list) \<Rightarrow> 'a list \<Rightarrow> nat \<Rightarrow> 'a list" where
  "sort_range srt buf n = srt (take n buf) @ drop n buf"

text \<open>
  \<open>std::lower_bound(first, last, value, cmp)\<close>: the binary search of the standard
  library over the positions \<open>[first, first + len)\<close> of \<open>xs\<close>.
\<close>

function lower_bound_loop :: "('a \<Rightarrow> 'a \<Rightarrow> bool) \<Rightarrow> 'a list \<Rightarrow> 'a \<Rightarrow> nat \<Rightarrow> nat \<Rightarrow> nat" where
  "lower_bound_loop cmp xs v first len =
     (if 0 < len then
        (if cmp (xs ! (first + len div 2)) v
         then lower_bound_loop cmp xs v (first + len div 2 + 1) (len - (len div 2 + 1))
         else lower_bound_loop cmp xs v first (len div 2))
      else first)"
  by pat_completeness auto
termination
  by (relation "measure (\<lambda>(cmp, xs, v, first, len). len)") auto

definition lower_bound :: "('a \<Rightarrow> 'a \<Rightarrow> bool) \<Rightarrow> 'a list \<Rightarrow> nat \<Rightarrow> nat \<Rightarrow> 'a \<Rightarrow> nat" where
  "lower_bound cmp xs first lst v = lower_bound_loop cmp xs v first (lst - first)"

section \<open>The MPI collectives\<close>

text \<open>
  The state of the job is the list of the ranks' local values, in rank order. A collective
  maps the list of what every rank contributes to the list of what every rank receives.
\<close>

definition MPI_Gather :: "'a list list \<Rightarrow> 'a list" where
  "MPI_Gather blocks = concat blocks"

definition MPI_Bcast :: "nat \<Rightarrow> 'a \<Rightarrow> 'a list" where
  "MPI_Bcast p x = replicate p x"

definition MPI_Allgather :: "'a list list \<Rightarrow> 'a list list" where
  "MPI_Allgather blocks = replicate (length blocks) (concat blocks)"

definition MPI_Alltoall :: "'a list list \<Rightarrow> 'a list list" where
  "MPI_Alltoall send = map (\<lambda>k. map (\<lambda>s. s ! k) send) [0..<length send]"

text \<open>
  \<open>MPI_Alltoallv\<close>: a rank's argument is its buffer with the per-peer counts and
  displacements. Rank \<open>i\<close> sends to rank \<open>k\<close> the \<open>counts ! k\<close> elements of its buffer
  from \<open>displs ! k\<close>; rank \<open>k\<close> stores what rank \<open>i\<close> sent at its own \<open>displs ! i\<close>.
  A negative count, or a receive count that differs from the matching send count, is an
  MPI error; a block that leaves its buffer is out of bounds.
\<close>

type_synonym 'a vbuf = "'a list \<times> c_int list \<times> c_int list"

definition send_block :: "'a vbuf \<Rightarrow> nat \<Rightarrow> error + 'a list" where
  "send_block sb k =
     (case sb of (buf, counts, displs) \<Rightarrow>
        if sint (counts ! k) < 0 then Inl Mpi_error
        else if sint (displs ! k) < 0
                \<or> length buf < nat (sint (displs ! k)) + nat (sint (counts ! k))
        then Inl Out_of_bounds
        else Inr (take (nat (sint (counts ! k))) (drop (nat (sint (displs ! k))) buf)))"

primrec recv_blocks ::
  "c_int list \<Rightarrow> c_int list \<Rightarrow> (error + 'a list) list \<Rightarrow> nat \<Rightarrow> 'a list \<Rightarrow> error + 'a list" where
  "recv_blocks counts displs [] i buf = Inr buf"
| "recv_blocks counts displs (m # ms) i buf =
     (case m of
        Inl e \<Rightarrow> Inl e
      | Inr xs \<Rightarrow>
          if sint (counts ! i) < 0 \<or> int (length xs) \<noteq> sint (counts ! i) then Inl Mpi_error
          else if sint (displs ! i) < 0 \<or> length buf < nat (sint (displs ! i)) + length xs
          then Inl Out_of_bounds
          else recv_blocks counts displs ms (i + 1)
                 (take (nat (sint (displs ! i))) buf @ xs
                  @ drop (nat (sint (displs ! i)) + length xs) buf))"

definition MPI_Alltoallv :: "'a vbuf list \<Rightarrow> 'a vbuf list \<Rightarrow> error + 'a list list" where
  "MPI_Alltoallv sends recvs =
     collect (map (\<lambda>k. case recvs ! k of (buf, counts, displs) \<Rightarrow>
                          recv_blocks counts displs (map (\<lambda>s. send_block s k) sends) 0 buf)
                [0..<length recvs])"

section \<open>get_splitters\<close>

text \<open>
  The local sampling loop of one rank. \<open>s_pos\<close> is the offset of the iterator from
  \<open>begin\<close>; the assertion \<open>begin <= s_pos-1 && s_pos-1 < end\<close> guards the read.
\<close>

primrec sample_loop ::
  "'a list \<Rightarrow> c_unsigned \<Rightarrow> c_unsigned \<Rightarrow> nat list \<Rightarrow> nat \<Rightarrow> error + 'a list" where
  "sample_loop seg jump leftover [] s_pos = Inr []"
| "sample_loop seg jump leftover (i # rest) s_pos =
     (let s_pos' = s_pos + unat (jump + (if of_nat i < leftover then 1 else 0)) in
      if 1 \<le> s_pos' \<and> s_pos' - 1 < length seg then
        (case sample_loop seg jump leftover rest s_pos' of
           Inl e \<Rightarrow> Inl e
         | Inr sample \<Rightarrow> Inr (seg ! (s_pos' - 1) # sample))
      else Inl Assertion_failed)"

definition local_samples :: "'a list \<Rightarrow> c_int \<Rightarrow> error + 'a list" where
  "local_samples seg numprocs =
     (let sz = (of_nat (length seg) :: c_unsigned);
          sample_size = numprocs - 1;
          jump = sz div (sample_size + 1);
          leftover = sz mod (sample_size + 1)
      in sample_loop seg jump leftover [0..<unat sample_size] 0)"

text \<open>
  The coordinator (rank 0): sort the gathered samples and take every \<open>sample_size\<close>-th.
  The buffer \<open>all_samples\<close> has \<open>numprocs*sample_size\<close> elements (an unsigned product);
  the gathered blocks fill it exactly unless that product wrapped.
\<close>

primrec resample_loop ::
  "'a list \<Rightarrow> c_unsigned \<Rightarrow> c_unsigned \<Rightarrow> nat list \<Rightarrow> c_unsigned \<Rightarrow> error + 'a list" where
  "resample_loop all_samples sample_size cap [] as_pos = Inr []"
| "resample_loop all_samples sample_size cap (i # rest) as_pos =
     (let as_pos' = as_pos + sample_size in
      if as_pos' - 1 < cap then
        (if unat (as_pos' - 1) < length all_samples then
           (case resample_loop all_samples sample_size cap rest as_pos' of
              Inl e \<Rightarrow> Inl e
            | Inr sample \<Rightarrow> Inr (all_samples ! unat (as_pos' - 1) # sample))
         else Inl Out_of_bounds)
      else Inl Assertion_failed)"

definition global_splitters :: "('a list \<Rightarrow> 'a list) \<Rightarrow> 'a list \<Rightarrow> c_int \<Rightarrow> error + 'a list" where
  "global_splitters srt all_samples numprocs =
     (let sample_size = numprocs - 1;
          cap = numprocs * sample_size
      in if unat cap \<noteq> length all_samples then Inl Out_of_bounds
         else resample_loop (srt all_samples) sample_size cap [0..<unat sample_size] 0)"

text \<open>All ranks together: the result is every rank's copy of the broadcast splitters.\<close>

definition get_splitters ::
  "('a list \<Rightarrow> 'a list) \<Rightarrow> 'a list list \<Rightarrow> c_int \<Rightarrow> error + 'a list list" where
  "get_splitters srt segs numprocs =
     (case collect (map (\<lambda>seg. local_samples seg numprocs) segs) of
        Inl e \<Rightarrow> Inl e
      | Inr sample \<Rightarrow>
          (case global_splitters srt (MPI_Gather sample) numprocs of
             Inl e \<Rightarrow> Inl e
           | Inr splitters \<Rightarrow> Inr (MPI_Bcast (length segs) splitters)))"

section \<open>get_buckets\<close>

text \<open>
  The bucketing loop of one rank: the send counts, one per splitter and a last one. The
  rank's splitter array has \<open>num_splitters = numprocs - 1\<close> entries, all of which the
  loop visits in order.
\<close>

primrec split_loop :: "('a \<Rightarrow> 'a \<Rightarrow> bool) \<Rightarrow> 'a list \<Rightarrow> 'a list \<Rightarrow> nat \<Rightarrow> c_int list" where
  "split_loop cmp seg [] s_pos = [of_nat (length seg - s_pos)]"
| "split_loop cmp seg (splitter # splitters) s_pos =
     (let s_pos_next = lower_bound cmp seg s_pos (length seg) splitter in
      of_nat (s_pos_next - s_pos) # split_loop cmp seg splitters s_pos_next)"

text \<open>
  All ranks together. The result is every rank's \<open>bucket_elems\<close> with its \<open>bucket_size\<close>.
  \<open>uninit\<close> is what a freshly allocated element holds.
\<close>

definition get_buckets ::
  "('a list \<Rightarrow> 'a list) \<Rightarrow> ('a \<Rightarrow> 'a \<Rightarrow> bool) \<Rightarrow> 'a \<Rightarrow> 'a list list
     \<Rightarrow> error + ('a list \<times> c_int) list" where
  "get_buckets srt cmp uninit segs =
     (let numprocs = (of_nat (length segs) :: c_int) in
      case get_splitters srt segs numprocs of
        Inl e \<Rightarrow> Inl e
      | Inr splitters \<Rightarrow>
          (let send_split_counts = map2 (\<lambda>seg sp. split_loop cmp seg sp 0) segs splitters;
               recv_split_counts = MPI_Alltoall send_split_counts;
               send_displacements =
                 map (\<lambda>c. exclusive_sum c (nat (sint numprocs))) send_split_counts;
               recv_displacements =
                 map (\<lambda>c. exclusive_sum c (nat (sint numprocs))) recv_split_counts;
               bucket_size =
                 map2 (\<lambda>d c. d ! nat (sint (numprocs - 1)) + c ! nat (sint (numprocs - 1)))
                   recv_displacements recv_split_counts
           in if \<exists>b \<in> set bucket_size. sint b < 0 then Inl Bad_alloc
              else
                (case MPI_Alltoallv
                        (zip segs (zip send_split_counts send_displacements))
                        (zip (map (\<lambda>b. replicate (unat b) uninit) bucket_size)
                           (zip recv_split_counts recv_displacements)) of
                   Inl e \<Rightarrow> Inl e
                 | Inr bucket_elems \<Rightarrow> Inr (zip bucket_elems bucket_size))))"

section \<open>redistribute\<close>

primrec begin_loop :: "c_int list \<Rightarrow> nat list \<Rightarrow> c_int \<Rightarrow> c_int \<Rightarrow> c_int \<times> c_int" where
  "begin_loop all_sizes [] orig_begin bucket_begin = (orig_begin, bucket_begin)"
| "begin_loop all_sizes (i # rest) orig_begin bucket_begin =
     begin_loop all_sizes rest
       (orig_begin + all_sizes ! (2 * i)) (bucket_begin + all_sizes ! (2 * i + 1))"

primrec counts_loop ::
  "c_int list \<Rightarrow> c_int \<times> c_int \<Rightarrow> c_int \<times> c_int \<Rightarrow> nat list \<Rightarrow> c_int \<Rightarrow> c_int
     \<Rightarrow> (c_int \<times> c_int) list" where
  "counts_loop all_sizes my_orig my_bucket [] curr_orig_begin curr_bucket_begin = []"
| "counts_loop all_sizes my_orig my_bucket (i # rest) curr_orig_begin curr_bucket_begin =
     (let curr_orig_end = curr_orig_begin + all_sizes ! (2 * i);
          send_count =
            interval_overlap curr_orig_begin curr_orig_end (fst my_bucket) (snd my_bucket);
          curr_bucket_end = curr_bucket_begin + all_sizes ! (2 * i + 1);
          recv_count =
            interval_overlap curr_bucket_begin curr_bucket_end (fst my_orig) (snd my_orig)
      in (send_count, recv_count)
         # counts_loop all_sizes my_orig my_bucket rest curr_orig_end curr_bucket_end)"

text \<open>The \<open>send_counts\<close> and \<open>recv_counts\<close> of rank \<open>myid\<close>.\<close>

definition redistribute_counts :: "c_int list \<Rightarrow> c_int \<Rightarrow> nat \<Rightarrow> c_int list \<times> c_int list" where
  "redistribute_counts all_sizes numprocs myid =
     (let (global_my_orig_begin, global_my_bucket_begin) = begin_loop all_sizes [0..<myid] 0 0;
          global_my_orig_end = global_my_orig_begin + all_sizes ! (2 * myid);
          global_my_bucket_end = global_my_bucket_begin + all_sizes ! (2 * myid + 1);
          counts = counts_loop all_sizes
                     (global_my_orig_begin, global_my_orig_end)
                     (global_my_bucket_begin, global_my_bucket_end)
                     [0..<nat (sint numprocs)] 0 0
      in (map fst counts, map snd counts))"

text \<open>All ranks together: \<open>segs\<close> are the original buffers, which receive the result.\<close>

definition redistribute :: "'a list list \<Rightarrow> ('a list \<times> c_int) list \<Rightarrow> error + 'a list list" where
  "redistribute segs buckets =
     (let numprocs = (of_nat (length segs) :: c_int);
          local_sizes = map2 (\<lambda>seg (bucket_elems, bucket_size).
                                [of_nat (length seg), bucket_size]) segs buckets;
          all_sizes = MPI_Allgather local_sizes;
          counts = map2 (\<lambda>sizes myid. redistribute_counts sizes numprocs myid)
                     all_sizes [0..<length segs];
          sends = map2 (\<lambda>(bucket_elems, bucket_size) (send_counts, recv_counts).
                          (bucket_elems, send_counts,
                           exclusive_sum send_counts (nat (sint numprocs))))
                    buckets counts;
          recvs = map2 (\<lambda>seg (send_counts, recv_counts).
                          (seg, recv_counts, exclusive_sum recv_counts (nat (sint numprocs))))
                    segs counts
      in MPI_Alltoallv sends recvs)"

section \<open>samplesort\<close>

definition samplesort ::
  "('a list \<Rightarrow> 'a list) \<Rightarrow> ('a \<Rightarrow> 'a \<Rightarrow> bool) \<Rightarrow> 'a \<Rightarrow> 'a list list \<Rightarrow> error + 'a list list" where
  "samplesort srt cmp uninit segs =
     (let numprocs = (of_nat (length segs) :: c_int);
          sorted_segs = map srt segs
      in if sint numprocs \<le> 1 then Inr sorted_segs
         else
           (case get_buckets srt cmp uninit sorted_segs of
              Inl e \<Rightarrow> Inl e
            | Inr buckets \<Rightarrow>
                redistribute sorted_segs
                  (map (\<lambda>(bucket_elems, bucket_size).
                          (sort_range srt bucket_elems (nat (sint bucket_size)), bucket_size))
                     buckets)))"

section \<open>The program with its effects recorded\<close>

text \<open>
  The functions above give what the program computes. The functions of this section are
  the same program with a log of its effects: the buffers it allocates with \<open>new\<close> and
  the collective calls it makes, in program order, up to the point where it returns or
  fails. An entry stands for what every rank does at that point of the program
  (\<open>all_samples\<close> is allocated by rank 0 alone); an allocation that fails leaves no entry.
\<close>

datatype buffer =
  Sample | All_samples | Send_split_counts | Recv_split_counts | Send_displacements
  | Recv_displacements | Bucket_elems | All_sizes | Send_counts | Recv_counts

datatype collective = Gather | Bcast | Alltoall | Alltoallv | Allgather

datatype event = Allocate buffer | Collective collective

text \<open>
  \<open>get_splitters\<close>: \<open>sample\<close> is allocated before the sampling loop, \<open>all_samples\<close> before
  \<open>MPI_Gather\<close>; the coordinator's loop runs between \<open>MPI_Gather\<close> and \<open>MPI_Bcast\<close>.
\<close>

definition get_splitters_log ::
  "('a list \<Rightarrow> 'a list) \<Rightarrow> 'a list list \<Rightarrow> c_int
     \<Rightarrow> event list \<times> (error + 'a list list)" where
  "get_splitters_log srt segs numprocs =
     (case collect (map (\<lambda>seg. local_samples seg numprocs) segs) of
        Inl e \<Rightarrow> ([Allocate Sample], Inl e)
      | Inr sample \<Rightarrow>
          (case global_splitters srt (MPI_Gather sample) numprocs of
             Inl e \<Rightarrow> ([Allocate Sample, Allocate All_samples, Collective Gather], Inl e)
           | Inr splitters \<Rightarrow>
               ([Allocate Sample, Allocate All_samples, Collective Gather, Collective Bcast],
                Inr (MPI_Bcast (length segs) splitters))))"

text \<open>
  \<open>get_buckets\<close>: the two count arrays and \<open>MPI_Alltoall\<close>, the two arrays of
  \<open>exclusive_sum\<close>, then \<open>bucket_elems\<close> (whose allocation fails on a negative
  \<open>bucket_size\<close>) and \<open>MPI_Alltoallv\<close>.
\<close>

definition get_buckets_log ::
  "('a list \<Rightarrow> 'a list) \<Rightarrow> ('a \<Rightarrow> 'a \<Rightarrow> bool) \<Rightarrow> 'a \<Rightarrow> 'a list list
     \<Rightarrow> event list \<times> (error + ('a list \<times> c_int) list)" where
  "get_buckets_log srt cmp uninit segs =
     (let numprocs = (of_nat (length segs) :: c_int) in
      case get_splitters_log srt segs numprocs of
        (es, Inl e) \<Rightarrow> (es, Inl e)
      | (es, Inr splitters) \<Rightarrow>
          (let send_split_counts = map2 (\<lambda>seg sp. split_loop cmp seg sp 0) segs splitters;
               recv_split_counts = MPI_Alltoall send_split_counts;
               send_displacements =
                 map (\<lambda>c. exclusive_sum c (nat (sint numprocs))) send_split_counts;
               recv_displacements =
                 map (\<lambda>c. exclusive_sum c (nat (sint numprocs))) recv_split_counts;
               bucket_size =
                 map2 (\<lambda>d c. d ! nat (sint (numprocs - 1)) + c ! nat (sint (numprocs - 1)))
                   recv_displacements recv_split_counts;
               es' = es @ [Allocate Send_split_counts, Allocate Recv_split_counts,
                           Collective Alltoall, Allocate Send_displacements,
                           Allocate Recv_displacements]
           in if \<exists>b \<in> set bucket_size. sint b < 0 then (es', Inl Bad_alloc)
              else
                (case MPI_Alltoallv
                        (zip segs (zip send_split_counts send_displacements))
                        (zip (map (\<lambda>b. replicate (unat b) uninit) bucket_size)
                           (zip recv_split_counts recv_displacements)) of
                   Inl e \<Rightarrow> (es' @ [Allocate Bucket_elems, Collective Alltoallv], Inl e)
                 | Inr bucket_elems \<Rightarrow>
                     (es' @ [Allocate Bucket_elems, Collective Alltoallv],
                      Inr (zip bucket_elems bucket_size)))))"

text \<open>
  \<open>redistribute\<close> has no exit before its \<open>MPI_Alltoallv\<close>: every run of it allocates
  \<open>all_sizes\<close>, calls \<open>MPI_Allgather\<close>, allocates the two count arrays and the two arrays
  of \<open>exclusive_sum\<close>, and calls \<open>MPI_Alltoallv\<close>.
\<close>

definition redistribute_log ::
  "'a list list \<Rightarrow> ('a list \<times> c_int) list \<Rightarrow> event list \<times> (error + 'a list list)" where
  "redistribute_log segs buckets =
     ([Allocate All_sizes, Collective Allgather, Allocate Send_counts, Allocate Recv_counts,
       Allocate Send_displacements, Allocate Recv_displacements, Collective Alltoallv],
      redistribute segs buckets)"

definition samplesort_log ::
  "('a list \<Rightarrow> 'a list) \<Rightarrow> ('a \<Rightarrow> 'a \<Rightarrow> bool) \<Rightarrow> 'a \<Rightarrow> 'a list list
     \<Rightarrow> event list \<times> (error + 'a list list)" where
  "samplesort_log srt cmp uninit segs =
     (let numprocs = (of_nat (length segs) :: c_int);
          sorted_segs = map srt segs
      in if sint numprocs \<le> 1 then ([], Inr sorted_segs)
         else
           (case get_buckets_log srt cmp uninit sorted_segs of
              (es, Inl e) \<Rightarrow> (es, Inl e)
            | (es, Inr buckets) \<Rightarrow>
                (case redistribute_log sorted_segs
                        (map (\<lambda>(bucket_elems, bucket_size).
                                (sort_range srt bucket_elems (nat (sint bucket_size)),
                                 bucket_size))
                           buckets) of
                   (es', r) \<Rightarrow> (es @ es', r))))"

section \<open>Notions used in the statements\<close>

text \<open>
  The functions of this section are not part of the program; the statements below use
  them to say what the program computes.
\<close>

text \<open>\<open>chop ns xs\<close> cuts \<open>xs\<close> into consecutive blocks of the lengths \<open>ns\<close>.\<close>

primrec chop :: "nat list \<Rightarrow> 'a list \<Rightarrow> 'a list list" where
  "chop [] xs = []"
| "chop (n # ns) xs = take n xs # chop ns (drop n xs)"

text \<open>\<open>piece xs a b\<close> is the part of \<open>xs\<close> at the positions \<open>[a, b)\<close>.\<close>

definition piece :: "'a list \<Rightarrow> nat \<Rightarrow> nat \<Rightarrow> 'a list" where
  "piece xs a b = take (b - a) (drop a xs)"

text \<open>
  \<open>sample_index n p i\<close> is the position of the \<open>i\<close>-th local sample in a segment of \<open>n\<close>
  elements on one of \<open>p\<close> ranks: \<open>i + 1\<close> steps of \<open>n div p\<close>, one more for each of the
  first \<open>n mod p\<close> steps, minus one.
\<close>

definition sample_index :: "nat \<Rightarrow> nat \<Rightarrow> nat \<Rightarrow> nat" where
  "sample_index n p i = (i + 1) * (n div p) + min (i + 1) (n mod p) - 1"

text \<open>
  \<open>exchange S bufs\<close>: rank \<open>k\<close> gets, in rank order, the \<open>k\<close>-th block of every rank's
  buffer, where rank \<open>i\<close>'s buffer is cut into blocks of the lengths \<open>S ! i\<close>.
\<close>

definition exchange :: "nat list list \<Rightarrow> 'a list list \<Rightarrow> 'a list list" where
  "exchange S bufs =
     map (\<lambda>k. concat (map (\<lambda>i. chop (S ! i) (bufs ! i) ! k) [0..<length bufs]))
       [0..<length bufs]"

section \<open>Words that hold natural numbers\<close>

lemma unat_min: "unat (min (a :: 'a :: len word) b) = min (unat a) (unat b)"
  by (simp add: min_def word_le_nat_alt)

lemma unat_max: "unat (max (a :: 'a :: len word) b) = max (unat a) (unat b)"
  by (simp add: max_def word_le_nat_alt)

lemma interval_overlap_nat:
  assumes "l1 \<le> r1" "l2 \<le> r2"
  shows "unat (interval_overlap l1 r1 l2 r2) = min (unat r1) (unat r2) - max (unat l1) (unat l2)"
  using assms
  unfolding interval_overlap_def word_le_nat_alt word_less_nat_alt
  by (auto simp: unat_sub word_le_nat_alt)


lemma length_sums_from: "length (sums_from s as) = Suc (length as)"
  by (induction as arbitrary: s) simp_all

lemma sint_of_nat_small: "n < 2 ^ 31 \<Longrightarrow> sint (of_nat n :: c_int) = int n"
  by (simp add: signed_of_nat signed_take_bit_int_eq_self)

lemma unat_of_nat_small: "n < 2 ^ 32 \<Longrightarrow> unat (of_nat n :: c_int) = n"
  by (simp add: unat_of_nat)

lemma sums_from_nth_of_nat:
  "i \<le> length ns \<Longrightarrow>
     sums_from (of_nat s) (map of_nat ns) ! i = (of_nat (s + sum_list (take i ns)) :: c_int)"
proof (induction ns arbitrary: s i)
  case Nil
  then show ?case by simp
next
  case (Cons n ns)
  show ?case
  proof (cases i)
    case 0
    then show ?thesis by simp
  next
    case (Suc j)
    with Cons.prems have "j \<le> length ns" by simp
    from Cons.IH [OF this, of "s + n"] Suc show ?thesis
      by (simp add: add.assoc)
  qed
qed

lemma exclusive_sum_exact:
  assumes "1 \<le> n" and "n - 1 \<le> length arr" and "sum_list (map unat arr) < 2 ^ 31"
    and "i < n"
  shows "sint (exclusive_sum arr n ! i) = int (sum_list (take i (map unat arr)))"
proof -
  have arr: "take (n - 1) arr = map of_nat (take (n - 1) (map unat arr))"
    by (simp add: take_map comp_def)
  have i: "i \<le> length (take (n - 1) (map unat arr))"
    using assms by simp
  have "exclusive_sum arr n ! i = of_nat (sum_list (take i (take (n - 1) (map unat arr))))"
    unfolding exclusive_sum_def arr
    using sums_from_nth_of_nat [OF i, of 0] by simp
  also have "take i (take (n - 1) (map unat arr)) = take i (map unat arr)"
  proof -
    have "min i (n - 1) = i" using assms by simp
    then show ?thesis by (simp only: take_take)
  qed
  finally have eq: "exclusive_sum arr n ! i = of_nat (sum_list (take i (map unat arr)))" .
  have "sum_list (take i (map unat arr)) \<le> sum_list (map unat arr)"
    by (metis append_take_drop_id le_add1 sum_list_append)
  with assms have "sum_list (take i (map unat arr)) < 2 ^ 31"
    by simp
  then show ?thesis
    unfolding eq by (rule sint_of_nat_small)
qed

lemma exclusive_sum_wraps:
  "map sint (exclusive_sum [0x7FFFFFFF, 1, 0] 3) = [0, 2147483647, - 2147483648]"
  by (simp add: exclusive_sum_def)

lemma samplesort_single:
  assumes "length segs \<le> 1"
  shows "samplesort srt cmp uninit segs = Inr (map srt segs)"
proof -
  from assms have "length segs = 0 \<or> length segs = 1" by linarith
  then have "sint (of_nat (length segs) :: c_int) \<le> 1"
    by auto
  then show ?thesis
    by (simp add: samplesort_def)
qed

lemma local_samples_empty:
  assumes "2 \<le> sint numprocs"
  shows "local_samples [] numprocs = Inl Assertion_failed"
proof -
  have "numprocs - 1 \<noteq> 0"
    using assms by auto
  then have "0 < unat (numprocs - 1)"
    by (simp add: unat_gt_0)
  then have "[0..<unat (numprocs - 1)] = 0 # [1..<unat (numprocs - 1)]"
    by (simp add: upt_conv_Cons)
  then show ?thesis
    by (simp add: local_samples_def)
qed

section \<open>Strict weak orders\<close>

lemma swo_irrefl: "strict_weak_order cmp \<Longrightarrow> \<not> cmp x x"
  by (simp add: strict_weak_order_def)

lemma swo_trans: "strict_weak_order cmp \<Longrightarrow> cmp x y \<Longrightarrow> cmp y z \<Longrightarrow> cmp x z"
  unfolding strict_weak_order_def by blast

lemma swo_le_trans:
  "strict_weak_order cmp \<Longrightarrow> \<not> cmp x y \<Longrightarrow> \<not> cmp y z \<Longrightarrow> \<not> cmp x z"
  unfolding strict_weak_order_def by blast

lemma swo_le_less:
  "strict_weak_order cmp \<Longrightarrow> \<not> cmp y x \<Longrightarrow> cmp y z \<Longrightarrow> cmp x z"
  unfolding strict_weak_order_def by blast

lemma swo_less_le:
  "strict_weak_order cmp \<Longrightarrow> cmp x y \<Longrightarrow> \<not> cmp z y \<Longrightarrow> cmp x z"
  unfolding strict_weak_order_def by blast

lemma swo_asym: "strict_weak_order cmp \<Longrightarrow> cmp x y \<Longrightarrow> \<not> cmp y x"
  unfolding strict_weak_order_def by blast

lemma sorted_by_nth:
  "sorted_by cmp xs \<Longrightarrow> i < j \<Longrightarrow> j < length xs \<Longrightarrow> \<not> cmp (xs ! j) (xs ! i)"
  unfolding sorted_by_def by (simp add: sorted_wrt_iff_nth_less)

text \<open>On a sorted sequence, "less than \<open>v\<close>" holds on a prefix.\<close>

lemma sorted_by_prefix_closed:
  assumes "strict_weak_order cmp" and "sorted_by cmp xs"
    and "i \<le> j" and "j < length xs" and "cmp (xs ! j) v"
  shows "cmp (xs ! i) v"
proof (cases "i = j")
  case True
  with assms show ?thesis by simp
next
  case False
  with assms have "\<not> cmp (xs ! j) (xs ! i)"
    by (simp add: sorted_by_nth)
  with assms show ?thesis
    by (blast intro: swo_le_less)
qed

section \<open>std::lower_bound finds the partition point\<close>

lemma lower_bound_loop_done: "lower_bound_loop cmp xs v first 0 = first"
  by (subst lower_bound_loop.simps) simp

lemma lower_bound_loop_right:
  "0 < len \<Longrightarrow> cmp (xs ! (first + len div 2)) v \<Longrightarrow>
     lower_bound_loop cmp xs v first len
       = lower_bound_loop cmp xs v (first + len div 2 + 1) (len - (len div 2 + 1))"
  by (subst lower_bound_loop.simps) simp

lemma lower_bound_loop_left:
  "0 < len \<Longrightarrow> \<not> cmp (xs ! (first + len div 2)) v \<Longrightarrow>
     lower_bound_loop cmp xs v first len = lower_bound_loop cmp xs v first (len div 2)"
  by (subst lower_bound_loop.simps) simp

declare lower_bound_loop.simps [simp del]

lemma lower_bound_loop_range:
  "first \<le> lower_bound_loop cmp xs v first len
   \<and> lower_bound_loop cmp xs v first len \<le> first + len"
proof (induction cmp xs v first len rule: lower_bound_loop.induct)
  case (1 cmp xs v first len)
  show ?case
  proof (cases "0 < len")
    case False
    then show ?thesis by (simp add: lower_bound_loop_done)
  next
    case pos: True
    show ?thesis
    proof (cases "cmp (xs ! (first + len div 2)) v")
      case True
      from "1.IH"(1) [OF pos True] pos show ?thesis
        unfolding lower_bound_loop_right [where cmp = cmp and xs = xs and v = v and first = first, OF pos True] by linarith
    next
      case False
      from "1.IH"(2) [OF pos False] pos show ?thesis
        unfolding lower_bound_loop_left [where cmp = cmp and xs = xs and v = v and first = first, OF pos False] by linarith
    qed
  qed
qed

lemma lower_bound_loop_partition:
  assumes "\<And>i j. first \<le> i \<Longrightarrow> i \<le> j \<Longrightarrow> j < first + len \<Longrightarrow> cmp (xs ! j) v \<Longrightarrow> cmp (xs ! i) v"
  shows "(\<forall>i. first \<le> i \<and> i < lower_bound_loop cmp xs v first len \<longrightarrow> cmp (xs ! i) v)
       \<and> (\<forall>i. lower_bound_loop cmp xs v first len \<le> i \<and> i < first + len \<longrightarrow> \<not> cmp (xs ! i) v)"
  using assms
proof (induction cmp xs v first len rule: lower_bound_loop.induct)
  case (1 cmp xs v first len)
  show ?case
  proof (cases "0 < len")
    case False
    then show ?thesis by (auto simp: lower_bound_loop_done)
  next
    case pos: True
    define mid where "mid = first + len div 2"
    have mid: "first \<le> mid" "mid < first + len"
      using pos by (simp_all add: mid_def)
    show ?thesis
    proof (cases "cmp (xs ! mid) v")
      case True
      then have True': "cmp (xs ! (first + len div 2)) v"
        by (simp add: mid_def)
      define r where "r = lower_bound_loop cmp xs v (first + len div 2 + 1) (len - (len div 2 + 1))"
      have eq: "lower_bound_loop cmp xs v first len = r"
        unfolding r_def using pos True' by (rule lower_bound_loop_right)
      have top: "first + len div 2 + 1 + (len - (len div 2 + 1)) = first + len"
        using pos by simp
      have "(\<forall>i. first + len div 2 + 1 \<le> i \<and> i < r \<longrightarrow> cmp (xs ! i) v)
          \<and> (\<forall>i. r \<le> i \<and> i < first + len div 2 + 1 + (len - (len div 2 + 1))
                \<longrightarrow> \<not> cmp (xs ! i) v)"
        unfolding r_def
      proof (rule "1.IH"(1) [OF pos True'])
        fix i j
        assume "first + len div 2 + 1 \<le> i" "i \<le> j"
          "j < first + len div 2 + 1 + (len - (len div 2 + 1))" "cmp (xs ! j) v"
        then show "cmp (xs ! i) v"
          using "1.prems" [of i j] top by simp
      qed
      then have ih: "(\<forall>i. first + len div 2 + 1 \<le> i \<and> i < r \<longrightarrow> cmp (xs ! i) v)
          \<and> (\<forall>i. r \<le> i \<and> i < first + len \<longrightarrow> \<not> cmp (xs ! i) v)"
        unfolding top .
      have lo: "cmp (xs ! i) v" if "first \<le> i" "i < r" for i
      proof (cases "i \<le> mid")
        case True
        from "1.prems" [OF that(1) True mid(2) \<open>cmp (xs ! mid) v\<close>] show ?thesis .
      next
        case False
        then have "first + len div 2 + 1 \<le> i" by (simp add: mid_def)
        with ih that show ?thesis by blast
      qed
      have hi: "\<not> cmp (xs ! i) v" if "r \<le> i" "i < first + len" for i
        using ih that by blast
      show ?thesis
        unfolding eq using lo hi by blast
    next
      case False
      then have False': "\<not> cmp (xs ! (first + len div 2)) v"
        by (simp add: mid_def)
      define r where "r = lower_bound_loop cmp xs v first (len div 2)"
      have eq: "lower_bound_loop cmp xs v first len = r"
        unfolding r_def using pos False' by (rule lower_bound_loop_left)
      have ih: "(\<forall>i. first \<le> i \<and> i < r \<longrightarrow> cmp (xs ! i) v)
          \<and> (\<forall>i. r \<le> i \<and> i < first + len div 2 \<longrightarrow> \<not> cmp (xs ! i) v)"
        unfolding r_def
      proof (rule "1.IH"(2) [OF pos False'])
        fix i j
        assume "first \<le> i" "i \<le> j" "j < first + len div 2" "cmp (xs ! j) v"
        then show "cmp (xs ! i) v"
          using "1.prems" [of i j] pos by simp
      qed
      have lo: "cmp (xs ! i) v" if "first \<le> i" "i < r" for i
        using ih that by blast
      have hi: "\<not> cmp (xs ! i) v" if "r \<le> i" "i < first + len" for i
      proof (cases "i < mid")
        case True
        with ih that show ?thesis by (simp add: mid_def)
      next
        case False
        then have "mid \<le> i" by simp
        from "1.prems" [OF mid(1) this that(2)] \<open>\<not> cmp (xs ! mid) v\<close> show ?thesis
          by blast
      qed
      show ?thesis
        unfolding eq using lo hi by blast
    qed
  qed
qed

lemma lower_bound_sorted:
  assumes "strict_weak_order cmp" and "sorted_by cmp xs" and "first \<le> length xs"
  shows "first \<le> lower_bound cmp xs first (length xs) v"
    and "lower_bound cmp xs first (length xs) v \<le> length xs"
    and "\<And>i. first \<le> i \<Longrightarrow> i < lower_bound cmp xs first (length xs) v \<Longrightarrow> cmp (xs ! i) v"
    and "\<And>i. lower_bound cmp xs first (length xs) v \<le> i \<Longrightarrow> i < length xs \<Longrightarrow> \<not> cmp (xs ! i) v"
proof -
  have top: "first + (length xs - first) = length xs"
    using assms(3) by simp
  have mono: "\<And>i j. first \<le> i \<Longrightarrow> i \<le> j \<Longrightarrow> j < first + (length xs - first)
      \<Longrightarrow> cmp (xs ! j) v \<Longrightarrow> cmp (xs ! i) v"
    unfolding top using sorted_by_prefix_closed [OF assms(1,2)] by blast
  note part = lower_bound_loop_partition [of first "length xs - first" cmp xs v, OF mono, unfolded top]
  note rng = lower_bound_loop_range [of first cmp xs v "length xs - first", unfolded top]
  show "first \<le> lower_bound cmp xs first (length xs) v"
    and "lower_bound cmp xs first (length xs) v \<le> length xs"
    using rng by (simp_all add: lower_bound_def)
  show "\<And>i. first \<le> i \<Longrightarrow> i < lower_bound cmp xs first (length xs) v \<Longrightarrow> cmp (xs ! i) v"
    using part by (simp add: lower_bound_def)
  show "\<And>i. lower_bound cmp xs first (length xs) v \<le> i \<Longrightarrow> i < length xs \<Longrightarrow> \<not> cmp (xs ! i) v"
    using part by (simp add: lower_bound_def)
qed

section \<open>Blocks of a buffer\<close>

lemma length_chop: "length (chop ns xs) = length ns"
  by (induction ns arbitrary: xs) simp_all

lemma chop_nth:
  "k < length ns \<Longrightarrow> chop ns xs ! k = take (ns ! k) (drop (sum_list (take k ns)) xs)"
proof (induction ns arbitrary: xs k)
  case Nil
  then show ?case by simp
next
  case (Cons n ns)
  show ?case
  proof (cases k)
    case 0
    then show ?thesis by simp
  next
    case (Suc j)
    with Cons.prems have "j < length ns" by simp
    from Cons.IH [OF this] Suc show ?thesis
      by (simp add: add.commute)
  qed
qed

lemma concat_chop: "concat (chop ns xs) = take (sum_list ns) xs"
proof (induction ns arbitrary: xs)
  case Nil
  then show ?case by simp
next
  case (Cons n ns)
  then show ?case
    by (simp add: take_add)
qed

lemma set_chop_nth: "k < length ns \<Longrightarrow> set (chop ns xs ! k) \<subseteq> set xs"
  by (simp add: chop_nth) (meson set_take_subset set_drop_subset subset_trans)

lemma sum_list_take_le: "sum_list (take k (ns :: nat list)) \<le> sum_list ns"
  by (metis append_take_drop_id le_add1 sum_list_append)

lemma sum_list_take_Suc:
  "k < length (ns :: nat list) \<Longrightarrow> sum_list (take (Suc k) ns) = sum_list (take k ns) + ns ! k"
  by (simp add: take_Suc_conv_app_nth)

section \<open>The bucketing loop\<close>

lemma length_split_loop: "length (split_loop cmp seg sps s_pos) = Suc (length sps)"
  by (induction sps arbitrary: s_pos) (simp_all add: Let_def)

lemma split_loop_sizes:
  assumes "length seg < 2 ^ 32"
  shows "s_pos \<le> length seg \<Longrightarrow>
     sum_list (map unat (split_loop cmp seg sps s_pos)) = length seg - s_pos"
proof (induction sps arbitrary: s_pos)
  case Nil
  have "length seg - s_pos < 2 ^ 32"
    using assms by simp
  then show ?case
    by (simp add: unat_of_nat_small)
next
  case (Cons sp sps)
  define r where "r = lower_bound cmp seg s_pos (length seg) sp"
  have r: "s_pos \<le> r" "r \<le> length seg"
    using lower_bound_loop_range [of s_pos cmp seg sp "length seg - s_pos"] Cons.prems
    by (simp_all add: r_def lower_bound_def)
  have "r - s_pos < 2 ^ 32"
    using assms r by simp
  then have "unat (of_nat (r - s_pos) :: c_int) = r - s_pos"
    by (rule unat_of_nat_small)
  with Cons.IH [OF r(2)] r show ?case
    by (simp add: Let_def r_def [symmetric])
qed

text \<open>
  On a sorted segment every element of bucket \<open>k\<close> is less than splitter \<open>k\<close> (when
  there is one) and not less than any earlier splitter.
\<close>

lemma split_loop_buckets:
  assumes "strict_weak_order cmp" and "sorted_by cmp seg" and "length seg < 2 ^ 32"
  shows "s_pos \<le> length seg \<Longrightarrow> k \<le> length sps \<Longrightarrow>
     x \<in> set (chop (map unat (split_loop cmp seg sps s_pos)) (drop s_pos seg) ! k) \<Longrightarrow>
     (k < length sps \<longrightarrow> cmp x (sps ! k)) \<and> (\<forall>j<k. \<not> cmp x (sps ! j))"
proof (induction sps arbitrary: s_pos k)
  case Nil
  then show ?case by simp
next
  case (Cons sp sps)
  define r where "r = lower_bound cmp seg s_pos (length seg) sp"
  note lb = lower_bound_sorted [OF assms(1,2) Cons.prems(1), where v = sp, folded r_def]
  have "r - s_pos < 2 ^ 32"
    using assms lb by simp
  then have u: "unat (of_nat (r - s_pos) :: c_int) = r - s_pos"
    by (rule unat_of_nat_small)
  have sizes: "map unat (split_loop cmp seg (sp # sps) s_pos)
      = (r - s_pos) # map unat (split_loop cmp seg sps r)"
    by (simp add: Let_def r_def [symmetric] u)
  have dd: "r - s_pos + s_pos = r"
    using lb(1) by simp
  show ?case
  proof (cases k)
    case 0
    with Cons.prems(3) [unfolded sizes] have "x \<in> set (take (r - s_pos) (drop s_pos seg))"
      by simp
    then obtain i where i: "i < r - s_pos" "i < length seg - s_pos" "x = drop s_pos seg ! i"
      by (auto simp: in_set_conv_nth)
    then have "x = seg ! (s_pos + i)"
      using Cons.prems(1) by simp
    moreover have "cmp (seg ! (s_pos + i)) sp"
      using lb(3) [of "s_pos + i"] i by simp
    ultimately show ?thesis
      using 0 by simp
  next
    case (Suc k')
    with Cons.prems(2) Cons.prems(3) [unfolded sizes] have k': "k' \<le> length sps"
      and x: "x \<in> set (chop (map unat (split_loop cmp seg sps r)) (drop r seg) ! k')"
      by (simp_all add: dd)
    note ih = Cons.IH [OF lb(2) k' x]
    have "k' < length (map unat (split_loop cmp seg sps r))"
      using k' by (simp add: length_split_loop)
    then have "set (chop (map unat (split_loop cmp seg sps r)) (drop r seg) ! k')
        \<subseteq> set (drop r seg)"
      by (rule set_chop_nth)
    then have "x \<in> set (drop r seg)"
      using x by (rule subsetD)
    then obtain i where i: "i < length seg - r" "x = drop r seg ! i"
      by (auto simp: in_set_conv_nth)
    then have "x = seg ! (r + i)"
      using lb(2) by simp
    moreover have "\<not> cmp (seg ! (r + i)) sp"
      using lb(4) [of "r + i"] i by simp
    ultimately have first: "\<not> cmp x sp"
      by simp
    show ?thesis
    proof (intro conjI impI allI)
      assume "k < length (sp # sps)"
      with ih Suc show "cmp x ((sp # sps) ! k)" by simp
    next
      fix j assume "j < k"
      with ih Suc first show "\<not> cmp x ((sp # sps) ! j)"
        by (cases j) simp_all
    qed
  qed
qed

section \<open>Counts and displacements\<close>

lemma collect_map_Inr:
  "(\<And>k. k \<in> set ks \<Longrightarrow> f k = Inr (g k)) \<Longrightarrow> collect (map f ks) = Inr (map g ks)"
  by (induction ks) simp_all

lemma collect_Inl:
  "r \<in> set rs \<Longrightarrow> r = Inl e \<Longrightarrow> \<exists>e'. collect rs = Inl e'"
proof (induction rs)
  case Nil
  then show ?case by simp
next
  case (Cons a rs)
  then show ?case
    by (cases a; cases "collect rs") auto
qed

lemma nat_sint_of_nat_small: "n < 2 ^ 31 \<Longrightarrow> nat (sint (of_nat n :: c_int)) = n"
  by (simp add: sint_of_nat_small)

lemma length_exclusive_sum:
  "1 \<le> n \<Longrightarrow> n - 1 \<le> length arr \<Longrightarrow> length (exclusive_sum arr n) = n"
  by (simp add: exclusive_sum_def length_sums_from)

lemma exclusive_sum_of_nat_nth:
  assumes "k < length ns"
  shows "exclusive_sum (map of_nat ns) (length ns) ! k = of_nat (sum_list (take k ns))"
proof -
  have k: "k \<le> length (take (length ns - 1) ns)"
    using assms by simp
  have mn: "min k (length ns - Suc 0) = k"
    using assms by simp
  have "exclusive_sum (map of_nat ns) (length ns)
      = sums_from (of_nat 0) (map of_nat (take (length ns - 1) ns))"
    by (simp add: exclusive_sum_def take_map)
  then show ?thesis
    using sums_from_nth_of_nat [OF k, of 0] by (simp add: mn)
qed

lemma nth_le_sum_list: "k < length (ns :: nat list) \<Longrightarrow> ns ! k \<le> sum_list ns"
  by (metis elem_le_sum_list)

lemma length_chop_nth:
  assumes "k < length ns" and "sum_list ns \<le> length xs"
  shows "length (chop ns xs ! k) = ns ! k"
proof -
  have "sum_list (take (Suc k) ns) \<le> sum_list ns"
    by (rule sum_list_take_le)
  then have "sum_list (take k ns) + ns ! k \<le> length xs"
    using assms by (simp add: sum_list_take_Suc)
  then show ?thesis
    using assms by (simp add: chop_nth)
qed

section \<open>MPI_Alltoallv moves blocks\<close>

lemma send_block_chop:
  assumes "k < length ns" and "sum_list ns \<le> length buf" and "sum_list ns < 2 ^ 31"
  shows "send_block (buf, map of_nat ns, exclusive_sum (map of_nat ns) (length ns)) k
       = Inr (chop ns buf ! k)"
proof -
  have c: "ns ! k < 2 ^ 31"
    using nth_le_sum_list [OF assms(1)] assms(3) by simp
  have d: "sum_list (take k ns) < 2 ^ 31"
    using sum_list_take_le [of k ns] assms(3) by simp
  have "sum_list (take (Suc k) ns) \<le> sum_list ns"
    by (rule sum_list_take_le)
  then have fit: "sum_list (take k ns) + ns ! k \<le> length buf"
    using assms by (simp add: sum_list_take_Suc)
  show ?thesis
    using assms(1) fit
    by (simp add: send_block_def exclusive_sum_of_nat_nth sint_of_nat_small [OF c]
        sint_of_nat_small [OF d] chop_nth)
qed

lemma recv_blocks_concat_from:
  assumes "sum_list (map length ms) < 2 ^ 31"
    and "counts = map (\<lambda>m. of_nat (length m)) ms"
    and "displs = exclusive_sum counts (length ms)"
  shows "length ms - i = d \<Longrightarrow> i \<le> length ms \<Longrightarrow> length buf = sum_list (map length ms) \<Longrightarrow>
     recv_blocks counts displs (map Inr (drop i ms)) i buf
       = Inr (take (sum_list (map length (take i ms))) buf @ concat (drop i ms))"
proof (induction d arbitrary: i buf)
  case 0
  then show ?case by simp
next
  case (Suc d)
  then have i: "i < length ms" by simp
  define D where "D = sum_list (take i (map length ms))"
  define m where "m = ms ! i"
  have i': "i < length (map length ms)" using i by simp
  have cnt: "counts ! i = of_nat (length m)"
    using i by (simp add: assms(2) m_def)
  have "displs = exclusive_sum (map of_nat (map length ms)) (length (map length ms))"
    by (simp add: assms(2,3) comp_def)
  then have dsp: "displs ! i = of_nat D"
    using exclusive_sum_of_nat_nth [OF i'] by (simp add: D_def)
  have "length m \<le> sum_list (map length ms)"
    using nth_le_sum_list [OF i'] i by (simp add: m_def)
  then have c: "length m < 2 ^ 31"
    using assms(1) by simp
  have "D \<le> sum_list (map length ms)"
    unfolding D_def by (rule sum_list_take_le)
  then have d: "D < 2 ^ 31"
    using assms(1) by simp
  have next_D: "sum_list (take (Suc i) (map length ms)) = D + length m"
    using i by (simp add: sum_list_take_Suc D_def m_def)
  have "sum_list (take (Suc i) (map length ms)) \<le> sum_list (map length ms)"
    by (rule sum_list_take_le)
  then have fit: "D + length m \<le> length buf"
    using Suc.prems(3) next_D by simp
  define buf' where "buf' = take D buf @ m @ drop (D + length m) buf"
  have len': "length buf' = sum_list (map length ms)"
    using fit Suc.prems(3) by (simp add: buf'_def)
  have ih: "recv_blocks counts displs (map Inr (drop (Suc i) ms)) (Suc i) buf'
       = Inr (take (sum_list (map length (take (Suc i) ms))) buf' @ concat (drop (Suc i) ms))"
    using Suc.prems i by (intro Suc.IH len') simp_all
  have tk: "take (D + length m) buf' = take D buf @ m"
    using fit by (simp add: buf'_def)
  have step: "recv_blocks counts displs (map Inr (drop i ms)) i buf
      = recv_blocks counts displs (map Inr (drop (Suc i) ms)) (Suc i) buf'"
    using fit
    by (simp add: Cons_nth_drop_Suc [OF i, symmetric] m_def [symmetric] cnt dsp
        sint_of_nat_small [OF c] sint_of_nat_small [OF d] buf'_def)
  show ?case
    unfolding step ih
    using next_D tk
    by (simp add: take_map Cons_nth_drop_Suc [OF i, symmetric] m_def [symmetric] D_def)
qed

lemma recv_blocks_concat:
  assumes "sum_list (map length ms) < 2 ^ 31"
    and "length buf = sum_list (map length ms)"
  shows "recv_blocks (map (\<lambda>m. of_nat (length m)) ms)
           (exclusive_sum (map (\<lambda>m. of_nat (length m)) ms) (length ms)) (map Inr ms) 0 buf
       = Inr (concat ms)"
  using recv_blocks_concat_from [OF assms(1) refl refl, of 0 "length ms" buf] assms(2)
  by simp

lemma map_nth_upt: "map (\<lambda>i. f (xs ! i)) [0..<length xs] = map f xs"
  by (rule nth_equalityI) simp_all

text \<open>
  \<open>S ! i ! k\<close> is the number of elements rank \<open>i\<close> sends to rank \<open>k\<close>. When every rank's
  send counts are its row of \<open>S\<close>, its receive counts are its column, the displacements
  are the exclusive sums and the receive buffer has room for exactly the column, rank
  \<open>k\<close> receives the \<open>k\<close>-th blocks of all send buffers, in rank order.
\<close>

lemma MPI_Alltoallv_blocks:
  assumes len: "length S = p" "length sends = p" "length recvs = p"
    and rows: "\<And>i. i < p \<Longrightarrow> length (S ! i) = p"
    and sends: "\<And>i. i < p \<Longrightarrow>
        sends ! i = (sbuf i, map of_nat (S ! i), exclusive_sum (map of_nat (S ! i)) p)"
    and sfit: "\<And>i. i < p \<Longrightarrow> sum_list (S ! i) \<le> length (sbuf i)"
    and ssmall: "\<And>i. i < p \<Longrightarrow> sum_list (S ! i) < 2 ^ 31"
    and recvs: "\<And>k. k < p \<Longrightarrow>
        recvs ! k = (rbuf k, map (\<lambda>r. of_nat (r ! k)) S,
                     exclusive_sum (map (\<lambda>r. of_nat (r ! k)) S) p)"
    and rfit: "\<And>k. k < p \<Longrightarrow> length (rbuf k) = sum_list (map (\<lambda>r. r ! k) S)"
    and rsmall: "\<And>k. k < p \<Longrightarrow> sum_list (map (\<lambda>r. r ! k) S) < 2 ^ 31"
  shows "MPI_Alltoallv sends recvs
       = Inr (map (\<lambda>k. concat (map (\<lambda>i. chop (S ! i) (sbuf i) ! k) [0..<p])) [0..<p])"
proof -
  have one: "(case recvs ! k of (buf, counts, displs) \<Rightarrow>
        recv_blocks counts displs (map (\<lambda>s. send_block s k) sends) 0 buf)
      = Inr (concat (map (\<lambda>i. chop (S ! i) (sbuf i) ! k) [0..<p]))"
    if k: "k < p" for k
  proof -
    define ms where "ms = map (\<lambda>i. chop (S ! i) (sbuf i) ! k) [0..<p]"
    have msgs: "map (\<lambda>s. send_block s k) sends = map Inr ms"
    proof (rule nth_equalityI)
      show "length (map (\<lambda>s. send_block s k) sends) = length (map Inr ms)"
        by (simp add: ms_def len)
    next
      fix i assume "i < length (map (\<lambda>s. send_block s k) sends)"
      then have i: "i < p" by (simp add: len)
      have "send_block (sbuf i, map of_nat (S ! i),
               exclusive_sum (map of_nat (S ! i)) (length (S ! i))) k
          = Inr (chop (S ! i) (sbuf i) ! k)"
        by (rule send_block_chop) (use k rows [OF i] sfit [OF i] ssmall [OF i] in simp_all)
      then show "map (\<lambda>s. send_block s k) sends ! i = map Inr ms ! i"
        using i by (simp add: len sends [OF i] rows [OF i] ms_def)
    qed
    have lens: "map length ms = map (\<lambda>r. r ! k) S"
    proof (rule nth_equalityI)
      show "length (map length ms) = length (map (\<lambda>r. r ! k) S)"
        by (simp add: ms_def len)
    next
      fix i assume "i < length (map length ms)"
      then have i: "i < p" by (simp add: ms_def)
      have "length (chop (S ! i) (sbuf i) ! k) = S ! i ! k"
        by (rule length_chop_nth) (use k rows [OF i] sfit [OF i] in simp_all)
      then show "map length ms ! i = map (\<lambda>r. r ! k) S ! i"
        using i by (simp add: ms_def len)
    qed
    have cnts: "map (\<lambda>r. of_nat (r ! k)) S = map (\<lambda>m. (of_nat (length m) :: c_int)) ms"
    proof -
      have "map (\<lambda>m. (of_nat (length m) :: c_int)) ms = map of_nat (map length ms)"
        by simp
      also have "\<dots> = map (\<lambda>r. of_nat (r ! k)) S"
        unfolding lens by simp
      finally show ?thesis by simp
    qed
    have p: "p = length ms"
      by (simp add: ms_def)
    have "recv_blocks (map (\<lambda>m. of_nat (length m)) ms)
           (exclusive_sum (map (\<lambda>m. of_nat (length m)) ms) (length ms)) (map Inr ms) 0 (rbuf k)
        = Inr (concat ms)"
      by (rule recv_blocks_concat) (use rsmall [OF k] rfit [OF k] in \<open>simp_all add: lens\<close>)
    then show ?thesis
      unfolding recvs [OF k] msgs cnts ms_def [symmetric]
      using p by simp
  qed
  show ?thesis
    unfolding MPI_Alltoallv_def len
    by (rule collect_map_Inr) (simp add: one)
qed

section \<open>The number of ranks as a word\<close>

lemma ranks_sq_small:
  assumes "p \<le> 65536"
  shows "p * (p - 1) < (2 :: nat) ^ 32"
proof -
  have "p * (p - 1) \<le> 65536 * 65535"
    using assms by (intro mult_le_mono) simp_all
  then show ?thesis by simp
qed

lemma of_nat_pred: "1 \<le> p \<Longrightarrow> (of_nat p :: c_int) - 1 = of_nat (p - 1)"
  by (cases p) simp_all

lemma word_of_nat_less_small:
  "a < 2 ^ 32 \<Longrightarrow> b < 2 ^ 32 \<Longrightarrow> (of_nat a :: c_int) < of_nat b \<longleftrightarrow> a < b"
  by (simp add: word_less_nat_alt unat_of_nat_small)

section \<open>get_splitters: the local samples\<close>

lemma sample_loop_positions:
  assumes j: "unat jump = j" and l: "unat leftover = l"
    and n: "j * p + l = length seg" "0 < length seg" "length seg < 2 ^ 32"
    and p: "2 \<le> p" "b < p" "b < 2 ^ 32"
  shows "b - a = d \<Longrightarrow> a \<le> b \<Longrightarrow>
     sample_loop seg jump leftover [a..<b] (a * j + min a l)
       = Inr (map (\<lambda>i. seg ! ((i + 1) * j + min (i + 1) l - 1)) [a..<b])"
proof (induction d arbitrary: a)
  case 0
  then show ?case by simp
next
  case (Suc d)
  then have a: "a < b" by simp
  have a32: "a < 2 ^ 32" using a p by simp
  have n': "length seg < 4294967296" using n by simp
  have "j * 2 \<le> j * p" using p by (intro mult_le_mono) simp_all
  then have "j + 1 < 4294967296"
    using n(1,2) n' by linarith
  then have j_small: "j + 1 < 2 ^ 32"
    by simp
  have lt: "(of_nat a :: c_unsigned) < leftover \<longleftrightarrow> a < l"
    using a32 by (simp add: word_less_nat_alt unat_of_nat_small l)
  have "unat (jump + 1) = j + 1"
    using j_small j by (simp add: unat_word_ariths)
  then have step: "unat (jump + (if of_nat a < leftover then 1 else 0))
      = j + (if a < l then 1 else 0)"
    by (simp add: lt j)
  have pos: "a * j + min a l + (j + (if a < l then 1 else 0)) = (a + 1) * j + min (a + 1) l"
    by (simp add: min_def)
  have "(a + 1) * j \<le> p * j"
    using a p by (intro mult_le_mono) simp_all
  then have hi: "(a + 1) * j + min (a + 1) l \<le> length seg"
    using n(1) by (simp add: mult.commute)
  have lo: "1 \<le> (a + 1) * j + min (a + 1) l"
  proof (cases "j = 0")
    case True
    with n have "0 < l" by simp
    then show ?thesis by (simp add: min_def)
  next
    case False
    then show ?thesis by simp
  qed
  define m where "m = (a + 1) * j + min (a + 1) l"
  have pos': "a * j + min a l + (j + (if a < l then 1 else 0)) = m"
    unfolding m_def by (rule pos)
  have chk: "1 \<le> m \<and> m - 1 < length seg"
    using lo hi by (simp add: m_def)
  have ih: "sample_loop seg jump leftover [Suc a..<b] m
      = Inr (map (\<lambda>i. seg ! ((i + 1) * j + min (i + 1) l - 1)) [Suc a..<b])"
    unfolding m_def using Suc.prems a Suc.IH [of "Suc a"] by simp
  have "sample_loop seg jump leftover (a # [Suc a..<b]) (a * j + min a l)
      = Inr (seg ! (m - 1) # map (\<lambda>i. seg ! ((i + 1) * j + min (i + 1) l - 1)) [Suc a..<b])"
    by (simp only: sample_loop.simps Let_def step pos' chk ih if_True sum.case simp_thms)
  then have "sample_loop seg jump leftover (a # [Suc a..<b]) (a * j + min a l)
      = Inr (map (\<lambda>i. seg ! ((i + 1) * j + min (i + 1) l - 1)) (a # [Suc a..<b]))"
    by (simp add: m_def)
  then show ?case
    using a by (simp only: upt_conv_Cons)
qed

lemma sample_loop_error:
  "sample_loop seg jump leftover ixs s_pos = Inl e \<Longrightarrow> e = Assertion_failed"
  by (induction ixs arbitrary: s_pos e) (auto simp: Let_def split: if_splits sum.splits)

lemma local_samples_positions:
  assumes "2 \<le> p" and "p \<le> 65536" and "0 < length seg" and "length seg < 2 ^ 32"
  shows "local_samples seg (of_nat p)
       = Inr (map (\<lambda>i. seg ! ((i + 1) * (length seg div p)
                              + min (i + 1) (length seg mod p) - 1)) [0..<p - 1])"
proof -
  have p32: "p < 2 ^ 32" using assms by simp
  have up: "unat (of_nat p :: c_int) = p"
    using p32 by (rule unat_of_nat_small)
  have un: "unat (of_nat (length seg) :: c_int) = length seg"
    using assms(4) by (rule unat_of_nat_small)
  have pm: "(of_nat p :: c_int) - 1 = of_nat (p - 1)"
    using assms by (intro of_nat_pred) simp
  have upm: "unat ((of_nat p :: c_int) - 1) = p - 1"
    unfolding pm using p32 by (intro unat_of_nat_small) simp
  have j: "unat ((of_nat (length seg) :: c_int) div of_nat p) = length seg div p"
    by (simp add: unat_div up un)
  have l: "unat ((of_nat (length seg) :: c_int) mod of_nat p) = length seg mod p"
    by (simp add: unat_mod up un)
  have "sample_loop seg (of_nat (length seg) div of_nat p) (of_nat (length seg) mod of_nat p)
          [0..<p - 1] (0 * (length seg div p) + min 0 (length seg mod p))
      = Inr (map (\<lambda>i. seg ! ((i + 1) * (length seg div p)
                             + min (i + 1) (length seg mod p) - 1)) [0..<p - 1])"
    using assms p32
    by (intro sample_loop_positions [OF j l, where p = p and d = "p - 1"]) simp_all
  then show ?thesis
    by (simp add: local_samples_def Let_def upm)
qed

lemma local_samples_error: "local_samples seg numprocs = Inl e \<Longrightarrow> e = Assertion_failed"
  unfolding local_samples_def Let_def by (rule sample_loop_error)

lemma local_samples_empty_ranks:
  assumes "2 \<le> p" and "p \<le> 65536"
  shows "local_samples [] (of_nat p) = Inl Assertion_failed"
proof -
  have "p < 2 ^ 31" using assms by simp
  then have "sint (of_nat p :: c_int) = int p"
    by (rule sint_of_nat_small)
  then have "2 \<le> sint (of_nat p :: c_int)"
    using assms by simp
  then show ?thesis
    by (rule local_samples_empty)
qed

section \<open>get_splitters: the coordinator\<close>

lemma resample_loop_positions:
  assumes q: "sample_size = of_nat q" "1 \<le> q" and cap: "cap = of_nat c" "c < 2 ^ 32"
    and len: "length xs = c" "q * q \<le> c"
  shows "b - a = d \<Longrightarrow> a \<le> b \<Longrightarrow> b \<le> q \<Longrightarrow>
     resample_loop xs sample_size cap [a..<b] (of_nat (a * q))
       = Inr (map (\<lambda>i. xs ! ((i + 1) * q - 1)) [a..<b])"
proof (induction d arbitrary: a)
  case 0
  then show ?case by simp
next
  case (Suc d)
  then have a: "a < b" by simp
  have "(a + 1) * q \<le> q * q"
    using a Suc.prems by (intro mult_le_mono) simp_all
  then have hi: "(a + 1) * q \<le> c"
    using len by simp
  have lo: "1 \<le> (a + 1) * q"
    using q by simp
  define m where "m = (a + 1) * q - 1"
  have nxt: "(of_nat (a * q) :: c_unsigned) + sample_size = of_nat (Suc a * q)"
    by (simp add: q(1) algebra_simps)
  have pos: "(of_nat (Suc a * q) :: c_unsigned) - 1 = of_nat m"
    unfolding m_def using lo by (simp add: of_nat_pred)
  have small: "m < length xs"
    using hi lo len by (simp add: m_def)
  then have u: "unat (of_nat m :: c_unsigned) = m"
    using cap len by (intro unat_of_nat_small) simp
  have lt: "(of_nat m :: c_unsigned) < cap"
    unfolding cap(1) using small cap(2) len by (subst word_of_nat_less_small) simp_all
  have ih: "resample_loop xs sample_size cap [Suc a..<b] (of_nat (Suc a * q))
      = Inr (map (\<lambda>i. xs ! ((i + 1) * q - 1)) [Suc a..<b])"
    using Suc.prems a by (intro Suc.IH) simp_all
  have "resample_loop xs sample_size cap (a # [Suc a..<b]) (of_nat (a * q))
      = Inr (xs ! m # map (\<lambda>i. xs ! ((i + 1) * q - 1)) [Suc a..<b])"
    by (simp only: resample_loop.simps Let_def nxt pos u lt small ih if_True sum.case simp_thms)
  then have "resample_loop xs sample_size cap (a # [Suc a..<b]) (of_nat (a * q))
      = Inr (map (\<lambda>i. xs ! ((i + 1) * q - 1)) (a # [Suc a..<b]))"
    by (simp add: m_def)
  then show ?case
    using a by (simp only: upt_conv_Cons)
qed

lemma global_splitters_positions:
  assumes "2 \<le> p" and "p \<le> 65536" and "length all_samples = p * (p - 1)"
    and "length (srt all_samples) = length all_samples"
  shows "global_splitters srt all_samples (of_nat p)
       = Inr (map (\<lambda>i. srt all_samples ! ((i + 1) * (p - 1) - 1)) [0..<p - 1])"
proof -
  have p32: "p < 2 ^ 32" using assms by simp
  have c32: "p * (p - 1) < 2 ^ 32"
    using assms(2) by (rule ranks_sq_small)
  have pm: "(of_nat p :: c_int) - 1 = of_nat (p - 1)"
    using assms by (intro of_nat_pred) simp
  have upm: "unat ((of_nat p :: c_int) - 1) = p - 1"
    unfolding pm using p32 by (intro unat_of_nat_small) simp
  have cap: "(of_nat p :: c_int) * (of_nat p - 1) = of_nat (p * (p - 1))"
    unfolding pm by simp
  have ucap: "unat ((of_nat p :: c_int) * (of_nat p - 1)) = p * (p - 1)"
    unfolding cap using c32 by (rule unat_of_nat_small)
  have "(p - 1) * (p - 1) \<le> p * (p - 1)"
    by (intro mult_le_mono) simp_all
  then have "resample_loop (srt all_samples) (of_nat p - 1) (of_nat p * (of_nat p - 1))
          [0..<p - 1] (of_nat (0 * (p - 1)))
      = Inr (map (\<lambda>i. srt all_samples ! ((i + 1) * (p - 1) - 1)) [0..<p - 1])"
    using assms c32
    by (intro resample_loop_positions [OF pm _ cap, where d = "p - 1"]) simp_all
  then show ?thesis
    using assms(3) by (simp add: global_splitters_def Let_def ucap upm)
qed

section \<open>The contract of std::sort\<close>

lemma srt_mset: "std_sort_contract cmp srt \<Longrightarrow> mset (srt xs) = mset xs"
  by (simp add: std_sort_contract_def)

lemma srt_sorted: "std_sort_contract cmp srt \<Longrightarrow> sorted_by cmp (srt xs)"
  by (simp add: std_sort_contract_def)

lemma srt_length: "std_sort_contract cmp srt \<Longrightarrow> length (srt xs) = length xs"
  by (metis srt_mset size_mset)

lemma srt_set: "std_sort_contract cmp srt \<Longrightarrow> set (srt xs) = set xs"
  by (metis srt_mset set_mset_mset)

section \<open>get_splitters on all ranks\<close>

lemma collect_error_source: "collect rs = Inl e \<Longrightarrow> Inl e \<in> set rs"
  by (induction rs) (auto split: sum.splits)

lemma get_splitters_positions:
  assumes p: "2 \<le> length segs" "length segs \<le> 65536"
    and segs: "\<And>seg. seg \<in> set segs \<Longrightarrow> 0 < length seg \<and> length seg < 2 ^ 32"
    and srt: "\<And>xs. length (srt xs) = length xs"
  shows "get_splitters srt segs (of_nat (length segs))
       = Inr (replicate (length segs)
           (map (\<lambda>i. srt (concat (map (\<lambda>seg. map (\<lambda>i. seg ! sample_index (length seg) (length segs) i)
                                           [0..<length segs - 1]) segs))
                       ! ((i + 1) * (length segs - 1) - 1))
              [0..<length segs - 1]))"
proof -
  define p where "p = length segs"
  define smp where "smp = (\<lambda>seg :: 'a list. map (\<lambda>i. seg ! sample_index (length seg) p i) [0..<p - 1])"
  have loc: "collect (map (\<lambda>seg. local_samples seg (of_nat p)) segs) = Inr (map smp segs)"
  proof (rule collect_map_Inr)
    fix seg assume "seg \<in> set segs"
    from segs [OF this] show "local_samples seg (of_nat p) = Inr (smp seg)"
      unfolding smp_def sample_index_def
      using assms(1,2) by (intro local_samples_positions) (simp_all add: p_def)
  qed
  have "sum_list (map length (map smp segs)) = sum_list (map (\<lambda>seg. p - 1) segs)"
    by (simp add: smp_def comp_def)
  also have "\<dots> = p * (p - 1)"
    by (simp add: sum_list_triv p_def)
  finally have len: "length (MPI_Gather (map smp segs)) = p * (p - 1)"
    by (simp add: MPI_Gather_def length_concat)
  have glob: "global_splitters srt (MPI_Gather (map smp segs)) (of_nat p)
      = Inr (map (\<lambda>i. srt (MPI_Gather (map smp segs)) ! ((i + 1) * (p - 1) - 1)) [0..<p - 1])"
    using p len srt by (intro global_splitters_positions) (simp_all add: p_def)
  show ?thesis
    unfolding p_def [symmetric]
    by (simp add: get_splitters_def loc glob MPI_Bcast_def p_def [symmetric])
      (simp add: MPI_Gather_def smp_def)
qed

lemma get_splitters_ok:
  assumes "2 \<le> length segs" "length segs \<le> 65536"
    and "\<And>seg. seg \<in> set segs \<Longrightarrow> 0 < length seg \<and> length seg < 2 ^ 32"
    and "\<And>xs. length (srt xs) = length xs"
  shows "\<exists>sp. length sp = length segs - 1
       \<and> get_splitters srt segs (of_nat (length segs)) = Inr (replicate (length segs) sp)"
proof (intro exI conjI)
  show "get_splitters srt segs (of_nat (length segs))
      = Inr (replicate (length segs)
           (map (\<lambda>i. srt (concat (map (\<lambda>seg. map (\<lambda>i. seg ! sample_index (length seg) (length segs) i)
                                           [0..<length segs - 1]) segs))
                       ! ((i + 1) * (length segs - 1) - 1))
              [0..<length segs - 1]))"
    using assms by (rule get_splitters_positions)
qed simp

lemma get_splitters_empty_segment:
  assumes "2 \<le> length segs" "length segs \<le> 65536" and "[] \<in> set segs"
  shows "get_splitters srt segs (of_nat (length segs)) = Inl Assertion_failed"
proof -
  define rs where "rs = map (\<lambda>seg. local_samples seg (of_nat (length segs))) segs"
  have "local_samples [] (of_nat (length segs)) = Inl Assertion_failed"
    using assms(1,2) by (rule local_samples_empty_ranks)
  then have "Inl Assertion_failed \<in> set rs"
    using assms(3) unfolding rs_def by (metis (no_types, lifting) image_eqI list.set_map)
  then obtain e where e: "collect rs = Inl e"
    using collect_Inl by blast
  then have "Inl e \<in> set rs"
    by (rule collect_error_source)
  then obtain seg where "seg \<in> set segs" "local_samples seg (of_nat (length segs)) = Inl e"
    unfolding rs_def by auto
  then have "e = Assertion_failed"
    using local_samples_error by blast
  with e show ?thesis
    by (simp add: get_splitters_def rs_def [symmetric])
qed

section \<open>get_buckets on all ranks\<close>

lemma get_buckets_steps:
  assumes "numprocs = of_nat (length segs)"
    and "get_splitters srt segs numprocs = Inr splitters"
    and "send_split_counts = map2 (\<lambda>seg sp. split_loop cmp seg sp 0) segs splitters"
    and "recv_split_counts = MPI_Alltoall send_split_counts"
    and "send_displacements = map (\<lambda>c. exclusive_sum c (nat (sint numprocs))) send_split_counts"
    and "recv_displacements = map (\<lambda>c. exclusive_sum c (nat (sint numprocs))) recv_split_counts"
    and "bucket_size = map2 (\<lambda>d c. d ! nat (sint (numprocs - 1)) + c ! nat (sint (numprocs - 1)))
                         recv_displacements recv_split_counts"
    and "\<And>b. b \<in> set bucket_size \<Longrightarrow> 0 \<le> sint b"
    and "MPI_Alltoallv (zip segs (zip send_split_counts send_displacements))
           (zip (map (\<lambda>b. replicate (unat b) uninit) bucket_size)
              (zip recv_split_counts recv_displacements)) = Inr bucket_elems"
  shows "get_buckets srt cmp uninit segs = Inr (zip bucket_elems bucket_size)"
proof -
  have "\<not> (\<exists>b \<in> set bucket_size. sint b < 0)"
    using assms(8) by (simp add: not_less)
  then show ?thesis
    using assms(2,9)
    unfolding assms(1,3-7) get_buckets_def Let_def
    by (simp only: sum.case if_False)
qed

lemma column_le_total:
  assumes "\<And>r. r \<in> set S \<Longrightarrow> k < length r"
  shows "sum_list (map (\<lambda>r. r ! k) S) \<le> sum_list (map sum_list (S :: nat list list))"
  using assms by (intro sum_list_mono) (simp add: nth_le_sum_list)

lemma get_buckets_exchange:
  assumes p: "2 \<le> length segs" "length segs \<le> 65536"
    and total: "sum_list (map length segs) < 2 ^ 31"
    and nonempty: "[] \<notin> set segs"
    and srt: "\<And>xs. length (srt xs) = length xs"
  shows "\<exists>sp. length sp = length segs - 1 \<and>
     get_buckets srt cmp uninit segs
       = Inr (map (\<lambda>b. (b, of_nat (length b)))
                (exchange (map (\<lambda>seg. map unat (split_loop cmp seg sp 0)) segs) segs))"
proof -
  define p where "p = length segs"
  define numprocs where "numprocs = (of_nat p :: c_int)"
  have p31: "p < 2 ^ 31" using p by (simp add: p_def)
  have np: "nat (sint numprocs) = p"
    unfolding numprocs_def using p31 by (rule nat_sint_of_nat_small)
  have "numprocs - 1 = of_nat (p - 1)"
    unfolding numprocs_def using p by (intro of_nat_pred) (simp add: p_def)
  moreover have "p - 1 < 2 ^ 31" using p31 by simp
  ultimately have np1: "nat (sint (numprocs - 1)) = p - 1"
    by (simp add: nat_sint_of_nat_small)
  have seg_len: "length seg \<le> sum_list (map length segs)" if "seg \<in> set segs" for seg
    using that by (metis elem_le_sum_list in_set_conv_nth length_map nth_map)
  have seg32: "0 < length seg \<and> length seg < 2 ^ 32" if "seg \<in> set segs" for seg
    using seg_len [OF that] total nonempty that by (cases seg) auto
  obtain sp where sp: "length sp = p - 1"
    and gs: "get_splitters srt segs numprocs = Inr (replicate p sp)"
    using get_splitters_ok [OF p seg32 srt] unfolding p_def numprocs_def by blast
  define S where "S = map (\<lambda>seg. map unat (split_loop cmp seg sp 0)) segs"
  define send_split_counts where
    "send_split_counts = map2 (\<lambda>seg sp. split_loop cmp seg sp 0) segs (replicate p sp)"
  define recv_split_counts where "recv_split_counts = MPI_Alltoall send_split_counts"
  define send_displacements where
    "send_displacements = map (\<lambda>c. exclusive_sum c (nat (sint numprocs))) send_split_counts"
  define recv_displacements where
    "recv_displacements = map (\<lambda>c. exclusive_sum c (nat (sint numprocs))) recv_split_counts"
  define bucket_size where
    "bucket_size = map2 (\<lambda>d c. d ! nat (sint (numprocs - 1)) + c ! nat (sint (numprocs - 1)))
                     recv_displacements recv_split_counts"
  have lenS: "length S = p"
    by (simp add: S_def p_def)
  have rows: "length (S ! i) = p" if "i < p" for i
    using that p by (simp add: S_def p_def length_split_loop sp [unfolded p_def])
  have rows': "k < length r" if "r \<in> set S" "k < p" for r k
    using that rows by (metis in_set_conv_nth lenS)
  have row_sum: "sum_list (S ! i) = length (segs ! i)" if "i < p" for i
  proof -
    have "segs ! i \<in> set segs" using that by (simp add: p_def)
    from seg32 [OF this] show ?thesis
      using that split_loop_sizes [of "segs ! i" 0 cmp sp] by (simp add: S_def p_def)
  qed
  have "map sum_list S = map length segs"
    by (rule nth_equalityI) (simp_all add: lenS p_def row_sum)
  then have totalS: "sum_list (map sum_list S) < 2 ^ 31"
    using total by simp
  have col_small: "sum_list (map (\<lambda>r. r ! k) S) < 2 ^ 31" if "k < p" for k
    using column_le_total [of S k] rows' that totalS by fastforce
  have ssc: "send_split_counts = map (\<lambda>r. map of_nat r) S"
    by (rule nth_equalityI) (simp_all add: send_split_counts_def S_def p_def comp_def)
  have len_ssc: "length send_split_counts = p"
    by (simp add: ssc lenS)
  have rsc: "recv_split_counts ! k = map (\<lambda>r. of_nat (r ! k)) S" if "k < p" for k
  proof -
    have "map (\<lambda>s. s ! k) (map (\<lambda>r. map of_nat r) S) = map (\<lambda>r. (of_nat (r ! k) :: c_int)) S"
      using rows' that by simp
    then show ?thesis
      using that by (simp add: recv_split_counts_def MPI_Alltoall_def len_ssc) (simp add: ssc)
  qed
  have len_rsc: "length recv_split_counts = p"
    by (simp add: recv_split_counts_def MPI_Alltoall_def len_ssc)
  have bs: "bucket_size ! k = of_nat (sum_list (map (\<lambda>r. r ! k) S))" if "k < p" for k
  proof -
    define col where "col = map (\<lambda>r. r ! k) S"
    have lc: "length col = p" by (simp add: col_def lenS)
    have pm: "p - 1 < length col" using p lc by (simp add: p_def)
    have c: "recv_split_counts ! k = map of_nat col"
      using rsc [OF that] by (simp add: col_def comp_def)
    have "exclusive_sum (map of_nat col) (length col) ! (p - 1)
        = (of_nat (sum_list (take (p - 1) col)) :: c_int)"
      using pm by (rule exclusive_sum_of_nat_nth)
    moreover have "sum_list (take (Suc (p - 1)) col) = sum_list (take (p - 1) col) + col ! (p - 1)"
      using pm by (rule sum_list_take_Suc)
    moreover have "Suc (p - 1) = length col" using pm lc by simp
    ultimately have "exclusive_sum (map of_nat col) p ! (p - 1) + map of_nat col ! (p - 1)
        = (of_nat (sum_list col) :: c_int)"
      using pm lc by simp
    then show ?thesis
      using that
      by (simp add: bucket_size_def recv_displacements_def len_rsc np np1 c)
        (simp add: col_def)
  qed
  have len_bs: "length bucket_size = p"
    by (simp add: bucket_size_def recv_displacements_def len_rsc)
  have nonneg: "0 \<le> sint b" if "b \<in> set bucket_size" for b
  proof -
    from that obtain k where k: "k < p" "b = bucket_size ! k"
      by (metis in_set_conv_nth len_bs)
    then show ?thesis
      using sint_of_nat_small [OF col_small [OF k(1)]] by (simp add: bs)
  qed
  have a2a: "MPI_Alltoallv (zip segs (zip send_split_counts send_displacements))
           (zip (map (\<lambda>b. replicate (unat b) uninit) bucket_size)
              (zip recv_split_counts recv_displacements))
      = Inr (map (\<lambda>k. concat (map (\<lambda>i. chop (S ! i) (segs ! i) ! k) [0..<p])) [0..<p])"
  proof (rule MPI_Alltoallv_blocks [where S = S and p = p
        and rbuf = "\<lambda>k. replicate (sum_list (map (\<lambda>r. r ! k) S)) uninit"])
    show "length S = p" by (rule lenS)
    show "length (zip segs (zip send_split_counts send_displacements)) = p"
      by (simp add: send_displacements_def len_ssc p_def)
    show "length (zip (map (\<lambda>b. replicate (unat b) uninit) bucket_size)
              (zip recv_split_counts recv_displacements)) = p"
      by (simp add: recv_displacements_def len_rsc len_bs)
    show "\<And>i. i < p \<Longrightarrow> length (S ! i) = p" by (rule rows)
    show "\<And>i. i < p \<Longrightarrow> zip segs (zip send_split_counts send_displacements) ! i
        = (segs ! i, map of_nat (S ! i), exclusive_sum (map of_nat (S ! i)) p)"
      by (simp add: send_displacements_def len_ssc p_def np [unfolded p_def])
        (simp add: ssc lenS [unfolded p_def])
    show "\<And>i. i < p \<Longrightarrow> sum_list (S ! i) \<le> length (segs ! i)"
      by (simp add: row_sum)
    show "\<And>i. i < p \<Longrightarrow> sum_list (S ! i) < 2 ^ 31"
      using total seg_len by (simp add: row_sum p_def) (meson le_less_trans nth_mem)
    show "\<And>k. k < p \<Longrightarrow>
        zip (map (\<lambda>b. replicate (unat b) uninit) bucket_size)
          (zip recv_split_counts recv_displacements) ! k
        = (replicate (sum_list (map (\<lambda>r. r ! k) S)) uninit, map (\<lambda>r. of_nat (r ! k)) S,
           exclusive_sum (map (\<lambda>r. of_nat (r ! k)) S) p)"
    proof -
      fix k assume k: "k < p"
      have "sum_list (map (\<lambda>r. r ! k) S) < 2 ^ 32"
        using col_small [OF k] by simp
      then have "unat (bucket_size ! k) = sum_list (map (\<lambda>r. r ! k) S)"
        unfolding bs [OF k] by (rule unat_of_nat_small)
      then show "zip (map (\<lambda>b. replicate (unat b) uninit) bucket_size)
          (zip recv_split_counts recv_displacements) ! k
        = (replicate (sum_list (map (\<lambda>r. r ! k) S)) uninit, map (\<lambda>r. of_nat (r ! k)) S,
           exclusive_sum (map (\<lambda>r. of_nat (r ! k)) S) p)"
        using k by (simp add: recv_displacements_def len_rsc len_bs np rsc)
    qed
    show "\<And>k. k < p \<Longrightarrow> length (replicate (sum_list (map (\<lambda>r. r ! k) S)) uninit)
        = sum_list (map (\<lambda>r. r ! k) S)"
      by simp
    show "\<And>k. k < p \<Longrightarrow> sum_list (map (\<lambda>r. r ! k) S) < 2 ^ 31"
      by (rule col_small)
  qed
  have "get_buckets srt cmp uninit segs
      = Inr (zip (map (\<lambda>k. concat (map (\<lambda>i. chop (S ! i) (segs ! i) ! k) [0..<p])) [0..<p])
               bucket_size)"
    using numprocs_def [unfolded p_def] gs send_split_counts_def recv_split_counts_def
      send_displacements_def recv_displacements_def bucket_size_def nonneg a2a
    by (rule get_buckets_steps)
  also have "zip (map (\<lambda>k. concat (map (\<lambda>i. chop (S ! i) (segs ! i) ! k) [0..<p])) [0..<p])
               bucket_size
      = map (\<lambda>b. (b, of_nat (length b))) (exchange S segs)"
  proof (rule nth_equalityI)
    show "length (zip (map (\<lambda>k. concat (map (\<lambda>i. chop (S ! i) (segs ! i) ! k) [0..<p])) [0..<p])
               bucket_size) = length (map (\<lambda>b. (b, of_nat (length b))) (exchange S segs))"
      by (simp add: len_bs exchange_def p_def)
  next
    fix k
    assume "k < length (zip (map (\<lambda>k. concat (map (\<lambda>i. chop (S ! i) (segs ! i) ! k) [0..<p])) [0..<p])
               bucket_size)"
    then have k: "k < p" by simp
    have "map (\<lambda>i. length (chop (S ! i) (segs ! i) ! k)) [0..<p] = map (\<lambda>i. S ! i ! k) [0..<p]"
      using k by (intro map_cong refl length_chop_nth) (simp_all add: rows row_sum)
    also have "\<dots> = map (\<lambda>r. r ! k) S"
      using map_nth_upt [of "\<lambda>r. r ! k" S] by (simp add: lenS)
    finally have "length (concat (map (\<lambda>i. chop (S ! i) (segs ! i) ! k) [0..<p]))
        = sum_list (map (\<lambda>r. r ! k) S)"
      by (simp add: length_concat comp_def)
    then show "zip (map (\<lambda>k. concat (map (\<lambda>i. chop (S ! i) (segs ! i) ! k) [0..<p])) [0..<p])
               bucket_size ! k = map (\<lambda>b. (b, of_nat (length b))) (exchange S segs) ! k"
      using k by (simp add: len_bs exchange_def p_def [symmetric] bs)
  qed
  finally show ?thesis
    using sp unfolding S_def p_def by blast
qed

section \<open>What the exchange of blocks preserves\<close>

lemma length_exchange: "length (exchange S bufs) = length bufs"
  by (simp add: exchange_def)

lemma concat_nths: "concat (map (\<lambda>k. xss ! k) [0..<length xss]) = concat xss"
  by (simp add: map_nth)

lemma mset_concat_exchange:
  assumes "\<And>i. i < length bufs \<Longrightarrow> length (S ! i) = length bufs"
    and "\<And>i. i < length bufs \<Longrightarrow> sum_list (S ! i) = length (bufs ! i)"
  shows "mset (concat (exchange S bufs)) = mset (concat bufs)"
proof -
  define p where "p = length bufs"
  define blk where "blk = (\<lambda>i k. mset (chop (S ! i) (bufs ! i) ! k))"
  have "mset (concat (exchange S bufs)) = (\<Sum>k = 0..<p. \<Sum>i = 0..<p. blk i k)"
    by (simp add: exchange_def mset_concat comp_def p_def blk_def
        interv_sum_list_conv_sum_set_nat)
  also have "\<dots> = (\<Sum>i = 0..<p. \<Sum>k = 0..<p. blk i k)"
    by (rule sum.swap)
  also have "\<dots> = (\<Sum>i = 0..<p. mset (bufs ! i))"
  proof (rule sum.cong [OF refl])
    fix i assume "i \<in> {0..<p}"
    then have i: "i < length bufs" by (simp add: p_def)
    have "(\<Sum>k = 0..<p. blk i k)
        = mset (concat (map (\<lambda>k. chop (S ! i) (bufs ! i) ! k) [0..<length (chop (S ! i) (bufs ! i))]))"
      by (simp add: mset_concat comp_def blk_def interv_sum_list_conv_sum_set_nat length_chop
          assms(1) [OF i] p_def)
    also have "\<dots> = mset (concat (chop (S ! i) (bufs ! i)))"
      by (simp only: concat_nths)
    also have "\<dots> = mset (bufs ! i)"
      by (simp add: concat_chop assms(2) [OF i])
    finally show "(\<Sum>k = 0..<p. blk i k) = mset (bufs ! i)" .
  qed
  also have "\<dots> = mset (concat (map (\<lambda>i. bufs ! i) [0..<length bufs]))"
    by (simp add: mset_concat comp_def interv_sum_list_conv_sum_set_nat p_def)
  also have "\<dots> = mset (concat bufs)"
    by (simp only: concat_nths)
  finally show ?thesis .
qed

lemma set_exchange_nth:
  assumes "k < length bufs" and "x \<in> set (exchange S bufs ! k)"
  shows "\<exists>i < length bufs. x \<in> set (chop (S ! i) (bufs ! i) ! k)"
  using assms by (auto simp: exchange_def)

section \<open>Sorted concatenations\<close>

lemma sorted_by_concat:
  assumes "\<And>xs. xs \<in> set xss \<Longrightarrow> sorted_by cmp xs"
    and "\<And>i j x y. i < j \<Longrightarrow> j < length xss \<Longrightarrow> x \<in> set (xss ! i) \<Longrightarrow> y \<in> set (xss ! j)
          \<Longrightarrow> \<not> cmp y x"
  shows "sorted_by cmp (concat xss)"
  using assms
proof (induction xss)
  case Nil
  then show ?case by (simp add: sorted_by_def)
next
  case (Cons xs xss)
  have tail: "sorted_by cmp (concat xss)"
  proof (rule Cons.IH)
    fix ys assume "ys \<in> set xss"
    then show "sorted_by cmp ys" using Cons.prems(1) by simp
  next
    fix i j x y
    assume "i < j" "j < length xss" "x \<in> set (xss ! i)" "y \<in> set (xss ! j)"
    then show "\<not> cmp y x"
      using Cons.prems(2) [of "Suc i" "Suc j" x y] by simp
  qed
  have head: "sorted_by cmp xs"
    using Cons.prems(1) by simp
  have cross: "\<not> cmp y x" if "x \<in> set xs" "y \<in> set (concat xss)" for x y
  proof -
    from that(2) obtain ys where "ys \<in> set xss" "y \<in> set ys"
      by auto
    then obtain j where "j < length xss" "y \<in> set (xss ! j)"
      by (metis in_set_conv_nth)
    then show ?thesis
      using Cons.prems(2) [of 0 "Suc j" x y] that(1) by simp
  qed
  show ?case
    using head tail cross unfolding sorted_by_def
    by (simp add: sorted_wrt_append)
qed

section \<open>Overlaps of two partitions of one sequence\<close>

lemma chop_concat: "chop (map length xss) (concat xss) = xss"
  by (induction xss) simp_all

lemma prefix_sum_mono: "sum_list (take k (ns :: nat list)) \<le> sum_list (take (Suc k) ns)"
proof (cases "k < length ns")
  case True
  then show ?thesis by (simp add: sum_list_take_Suc)
next
  case False
  then show ?thesis by simp
qed

lemma prefix_sum_mono_le:
  "i \<le> j \<Longrightarrow> sum_list (take i (ns :: nat list)) \<le> sum_list (take j ns)"
proof (induction j)
  case 0
  then show ?case by simp
next
  case (Suc j)
  show ?case
  proof (cases "i = Suc j")
    case True
    then show ?thesis by simp
  next
    case False
    with Suc have "sum_list (take i ns) \<le> sum_list (take j ns)" by simp
    also have "\<dots> \<le> sum_list (take (Suc j) ns)" by (rule prefix_sum_mono)
    finally show ?thesis .
  qed
qed

text \<open>
  The overlaps of \<open>[x, y)\<close> with the first \<open>k\<close> blocks of a partition with piece points
  \<open>c 0 \<le> c 1 \<le> \<dots>\<close> add up to the overlap with \<open>[c 0, c k)\<close>.
\<close>

lemma overlap_prefix_sum:
  fixes c :: "nat \<Rightarrow> nat"
  assumes "\<And>i. c i \<le> c (Suc i)" and "x \<le> y"
  shows "sum_list (map (\<lambda>i. min (c (Suc i)) y - max (c i) x) [0..<k]) = min (c k) y - max (c 0) x"
proof (induction k)
  case 0
  then show ?case by simp
next
  case (Suc k)
  have "c 0 \<le> c k"
    by (induction k) (simp_all add: assms(1) [THEN [2] le_trans])
  moreover note assms(1) [of k] assms(2)
  ultimately have "(min (c k) y - max (c 0) x) + (min (c (Suc k)) y - max (c k) x)
      = min (c (Suc k)) y - max (c 0) x"
    by (simp add: min_def max_def split: if_splits)
  with Suc show ?case by simp
qed

lemma piece_append:
  "a \<le> m \<Longrightarrow> m \<le> b \<Longrightarrow> piece xs a m @ piece xs m b = piece xs a b"
proof -
  assume "a \<le> m" "m \<le> b"
  then have "b - a = (m - a) + (b - m)" and "drop m xs = drop (m - a) (drop a xs)"
    by simp_all
  then show ?thesis
    unfolding piece_def by (simp only: take_add)
qed

lemma piece_empty: "b \<le> a \<Longrightarrow> piece xs a b = []"
  by (simp add: piece_def)

text \<open>
  The parts of \<open>[a, b)\<close> in the blocks of a partition, in order, make up \<open>[a, b)\<close>.
\<close>

lemma concat_pieces:
  fixes c :: "nat \<Rightarrow> nat"
  assumes "\<And>i. c i \<le> c (Suc i)" and "a \<le> b" and "c 0 \<le> a"
  shows "concat (map (\<lambda>i. piece xs (max a (c i)) (min b (c (Suc i)))) [0..<n])
       = piece xs a (max a (min b (c n)))"
proof (induction n)
  case 0
  then show ?case using assms by (simp add: piece_empty)
next
  case (Suc n)
  note mono = assms(1) [of n]
  have "piece xs a (max a (min b (c n))) @ piece xs (max a (c n)) (min b (c (Suc n)))
      = piece xs a (max a (min b (c (Suc n))))"
  proof (cases "c n \<le> a")
    case True
    then have "max a (min b (c n)) = a" "max a (c n) = a"
      using assms(2) by simp_all
    moreover have "piece xs a (min b (c (Suc n))) = piece xs a (max a (min b (c (Suc n))))"
    proof (cases "a \<le> min b (c (Suc n))")
      case True
      then show ?thesis by (simp add: max_def)
    next
      case F: False
      then have "min b (c (Suc n)) \<le> a" "max a (min b (c (Suc n))) = a"
        by linarith+
      then show ?thesis by (simp add: piece_empty)
    qed
    ultimately show ?thesis
      by (simp add: piece_empty)
  next
    case False
    then have an: "a < c n" by simp
    show ?thesis
    proof (cases "b \<le> c n")
      case True
      then have "max a (min b (c n)) = b" "min b (c (Suc n)) = b" "max a (c n) = c n"
        using assms(2) mono an by simp_all
      then show ?thesis
        using True assms(2) by (simp add: piece_empty max_def)
    next
      case False
      then have "max a (min b (c n)) = c n" "max a (c n) = c n"
        "max a (min b (c (Suc n))) = min b (c (Suc n))"
        using an mono by simp_all
      moreover have "piece xs a (c n) @ piece xs (c n) (min b (c (Suc n)))
          = piece xs a (min b (c (Suc n)))"
        using an False mono by (intro piece_append) simp_all
      ultimately show ?thesis by simp
    qed
  qed
  with Suc show ?case by simp
qed

text \<open>
  A block of a block. \<open>xs\<close> is piece at \<open>B\<close> and \<open>B + n\<close>; of that block, the part that
  starts \<open>d\<close> elements in and has \<open>c\<close> elements is a piece of \<open>xs\<close>.
\<close>

lemma take_drop_block:
  assumes "d + c \<le> n"
  shows "take c (drop d (take n (drop B xs))) = piece xs (B + d) (B + d + c)"
proof -
  have "take c (drop d (take n (drop B xs))) = take c (take (n - d) (drop d (drop B xs)))"
    by (simp add: drop_take)
  also have "\<dots> = take c (drop (B + d) xs)"
    using assms by (simp add: min_def add.commute)
  finally show ?thesis
    by (simp add: piece_def)
qed

section \<open>The counts computed by redistribute\<close>

lemma word_of_nat_le_small:
  "a < 2 ^ 32 \<Longrightarrow> b < 2 ^ 32 \<Longrightarrow> (of_nat a :: c_int) \<le> of_nat b \<longleftrightarrow> a \<le> b"
  by (simp add: word_le_nat_alt unat_of_nat_small)

lemma interval_overlap_of_nat:
  assumes "a \<le> b" and "c \<le> d" and "b < 2 ^ 32" and "d < 2 ^ 32"
  shows "interval_overlap (of_nat a) (of_nat b) (of_nat c) (of_nat d)
       = (of_nat (min b d - max a c) :: c_unsigned)"
proof -
  have small: "a < 2 ^ 32" "c < 2 ^ 32" "min b d - max a c < 2 ^ 32"
    using assms by simp_all
  have le: "(of_nat a :: c_unsigned) \<le> of_nat b" "(of_nat c :: c_unsigned) \<le> of_nat d"
    using assms small by (simp_all add: word_of_nat_le_small)
  have "unat (interval_overlap (of_nat a) (of_nat b) (of_nat c) (of_nat d))
      = min b d - max a c"
    using assms small by (simp add: interval_overlap_nat [OF le] unat_of_nat_small)
  also have "\<dots> = unat (of_nat (min b d - max a c) :: c_unsigned)"
    using small(3) by (simp add: unat_of_nat_small)
  finally show ?thesis
    by (rule word_unat_eq_iff [THEN iffD2])
qed

lemma concat_pairs_nth:
  "i < length xs \<Longrightarrow>
     concat (map (\<lambda>x. [f x, g x]) xs) ! (2 * i) = f (xs ! i)
     \<and> concat (map (\<lambda>x. [f x, g x]) xs) ! (2 * i + 1) = g (xs ! i)"
proof (induction xs arbitrary: i)
  case Nil
  then show ?case by simp
next
  case (Cons x xs)
  then show ?case by (cases i) simp_all
qed

lemma begin_loop_prefix:
  assumes "\<And>i. i < p \<Longrightarrow> all_sizes ! (2 * i) = of_nat (os ! i)"
    and "\<And>i. i < p \<Longrightarrow> all_sizes ! (2 * i + 1) = of_nat (bs ! i)"
    and "length os = p" and "length bs = p"
  shows "b - a = d \<Longrightarrow> a \<le> b \<Longrightarrow> b \<le> p \<Longrightarrow>
     begin_loop all_sizes [a..<b] (of_nat (sum_list (take a os))) (of_nat (sum_list (take a bs)))
       = (of_nat (sum_list (take b os)), of_nat (sum_list (take b bs)))"
proof (induction d arbitrary: a)
  case 0
  then show ?case by simp
next
  case (Suc d)
  then have a: "a < b" "a < p" by simp_all
  have nxt: "(of_nat (sum_list (take a os)) :: c_int) + all_sizes ! (2 * a)
        = of_nat (sum_list (take (Suc a) os))"
      "(of_nat (sum_list (take a bs)) :: c_int) + all_sizes ! (2 * a + 1)
        = of_nat (sum_list (take (Suc a) bs))"
    using a assms by (simp_all add: sum_list_take_Suc)
  have ih: "begin_loop all_sizes [Suc a..<b] (of_nat (sum_list (take (Suc a) os)))
        (of_nat (sum_list (take (Suc a) bs)))
      = (of_nat (sum_list (take b os)), of_nat (sum_list (take b bs)))"
    using Suc.prems a by (intro Suc.IH) simp_all
  have "begin_loop all_sizes (a # [Suc a..<b]) (of_nat (sum_list (take a os)))
        (of_nat (sum_list (take a bs)))
      = (of_nat (sum_list (take b os)), of_nat (sum_list (take b bs)))"
    by (simp only: begin_loop.simps nxt ih)
  then show ?case
    using a by (simp only: upt_conv_Cons)
qed

lemma counts_loop_overlaps:
  assumes "\<And>i. i < p \<Longrightarrow> all_sizes ! (2 * i) = of_nat (os ! i)"
    and "\<And>i. i < p \<Longrightarrow> all_sizes ! (2 * i + 1) = of_nat (bs ! i)"
    and "length os = p" and "length bs = p"
  shows "b - a = d \<Longrightarrow> a \<le> b \<Longrightarrow> b \<le> p \<Longrightarrow>
     counts_loop all_sizes my_orig my_bucket [a..<b]
         (of_nat (sum_list (take a os))) (of_nat (sum_list (take a bs)))
       = map (\<lambda>i. (interval_overlap (of_nat (sum_list (take i os)))
                      (of_nat (sum_list (take (Suc i) os))) (fst my_bucket) (snd my_bucket),
                    interval_overlap (of_nat (sum_list (take i bs)))
                      (of_nat (sum_list (take (Suc i) bs))) (fst my_orig) (snd my_orig)))
           [a..<b]"
proof (induction d arbitrary: a)
  case 0
  then show ?case by simp
next
  case (Suc d)
  then have a: "a < b" "a < p" by simp_all
  have nxt: "(of_nat (sum_list (take a os)) :: c_int) + all_sizes ! (2 * a)
        = of_nat (sum_list (take (Suc a) os))"
      "(of_nat (sum_list (take a bs)) :: c_int) + all_sizes ! (2 * a + 1)
        = of_nat (sum_list (take (Suc a) bs))"
    using a assms by (simp_all add: sum_list_take_Suc)
  have ih: "counts_loop all_sizes my_orig my_bucket [Suc a..<b]
         (of_nat (sum_list (take (Suc a) os))) (of_nat (sum_list (take (Suc a) bs)))
       = map (\<lambda>i. (interval_overlap (of_nat (sum_list (take i os)))
                      (of_nat (sum_list (take (Suc i) os))) (fst my_bucket) (snd my_bucket),
                    interval_overlap (of_nat (sum_list (take i bs)))
                      (of_nat (sum_list (take (Suc i) bs))) (fst my_orig) (snd my_orig)))
           [Suc a..<b]"
    using Suc.prems a by (intro Suc.IH) simp_all
  have "counts_loop all_sizes my_orig my_bucket (a # [Suc a..<b])
         (of_nat (sum_list (take a os))) (of_nat (sum_list (take a bs)))
       = map (\<lambda>i. (interval_overlap (of_nat (sum_list (take i os)))
                      (of_nat (sum_list (take (Suc i) os))) (fst my_bucket) (snd my_bucket),
                    interval_overlap (of_nat (sum_list (take i bs)))
                      (of_nat (sum_list (take (Suc i) bs))) (fst my_orig) (snd my_orig)))
           (a # [Suc a..<b])"
    by (simp only: counts_loop.simps Let_def nxt ih list.map)
  then show ?case
    using a by (simp only: upt_conv_Cons)
qed

text \<open>
  With original sizes \<open>os\<close> and bucket sizes \<open>bs\<close> that both stay below \<open>2^32\<close> in total,
  the counts of rank \<open>k\<close> are the overlaps of the ranks' ranges on the two number lines.
\<close>

lemma redistribute_counts_overlaps:
  assumes sizes: "\<And>i. i < p \<Longrightarrow> all_sizes ! (2 * i) = of_nat (os ! i)"
      "\<And>i. i < p \<Longrightarrow> all_sizes ! (2 * i + 1) = of_nat (bs ! i)"
    and len: "length os = p" "length bs = p"
    and small: "sum_list os < 2 ^ 32" "sum_list bs < 2 ^ 32"
    and np: "nat (sint numprocs) = p" and k: "k < p"
  shows "redistribute_counts all_sizes numprocs k
       = (map (\<lambda>i. of_nat (min (sum_list (take (Suc i) os)) (sum_list (take (Suc k) bs))
                           - max (sum_list (take i os)) (sum_list (take k bs)))) [0..<p],
          map (\<lambda>i. of_nat (min (sum_list (take (Suc i) bs)) (sum_list (take (Suc k) os))
                           - max (sum_list (take i bs)) (sum_list (take k os)))) [0..<p])"
proof -
  define po where "po = (\<lambda>i. sum_list (take i os))"
  define pb where "pb = (\<lambda>i. sum_list (take i bs))"
  have mono: "po i \<le> po (Suc i)" "pb i \<le> pb (Suc i)" for i
    unfolding po_def pb_def by (rule prefix_sum_mono)+
  have bound: "po i < 2 ^ 32" "pb i < 2 ^ 32" for i
    using sum_list_take_le [of i os] sum_list_take_le [of i bs] small
    by (simp_all add: po_def pb_def)
  have bl: "begin_loop all_sizes [0..<k] 0 0 = (of_nat (po k), of_nat (pb k))"
    using begin_loop_prefix [OF sizes len, of k 0 k] k by (simp add: po_def pb_def)
  have ends: "(of_nat (po k) :: c_int) + all_sizes ! (2 * k) = of_nat (po (Suc k))"
      "(of_nat (pb k) :: c_int) + all_sizes ! (2 * k + 1) = of_nat (pb (Suc k))"
    using k sizes len by (simp_all add: po_def pb_def sum_list_take_Suc)
  have cl: "counts_loop all_sizes (of_nat (po k), of_nat (po (Suc k)))
        (of_nat (pb k), of_nat (pb (Suc k))) [0..<p] 0 0
      = map (\<lambda>i. (interval_overlap (of_nat (po i)) (of_nat (po (Suc i)))
                     (of_nat (pb k)) (of_nat (pb (Suc k))),
                   interval_overlap (of_nat (pb i)) (of_nat (pb (Suc i)))
                     (of_nat (po k)) (of_nat (po (Suc k))))) [0..<p]"
    using counts_loop_overlaps [OF sizes len, of p 0 p
        "(of_nat (po k), of_nat (po (Suc k)))" "(of_nat (pb k), of_nat (pb (Suc k)))"]
    by (simp add: po_def pb_def)
  have ov: "interval_overlap (of_nat (po i)) (of_nat (po (Suc i))) (of_nat (pb j)) (of_nat (pb (Suc j)))
        = (of_nat (min (po (Suc i)) (pb (Suc j)) - max (po i) (pb j)) :: c_int)"
      "interval_overlap (of_nat (pb i)) (of_nat (pb (Suc i))) (of_nat (po j)) (of_nat (po (Suc j)))
        = (of_nat (min (pb (Suc i)) (po (Suc j)) - max (pb i) (po j)) :: c_int)" for i j
    by (rule interval_overlap_of_nat; rule mono bound)+
  have "redistribute_counts all_sizes numprocs k
      = (map (\<lambda>i. of_nat (min (po (Suc i)) (pb (Suc k)) - max (po i) (pb k))) [0..<p],
         map (\<lambda>i. of_nat (min (pb (Suc i)) (po (Suc k)) - max (pb i) (po k))) [0..<p])"
    using ends(2) by (simp add: redistribute_counts_def Let_def bl ends(1) np cl ov comp_def)
  then show ?thesis
    by (simp add: po_def pb_def)
qed

section \<open>redistribute on all ranks\<close>

lemma redistribute_steps:
  assumes "numprocs = of_nat (length segs)"
    and "local_sizes = map2 (\<lambda>seg (bucket_elems, bucket_size).
                                [of_nat (length seg), bucket_size]) segs buckets"
    and "all_sizes = MPI_Allgather local_sizes"
    and "counts = map2 (\<lambda>sizes myid. redistribute_counts sizes numprocs myid)
                     all_sizes [0..<length segs]"
    and "sends = map2 (\<lambda>(bucket_elems, bucket_size) (send_counts, recv_counts).
                          (bucket_elems, send_counts,
                           exclusive_sum send_counts (nat (sint numprocs))))
                    buckets counts"
    and "recvs = map2 (\<lambda>seg (send_counts, recv_counts).
                          (seg, recv_counts, exclusive_sum recv_counts (nat (sint numprocs))))
                    segs counts"
  shows "redistribute segs buckets = MPI_Alltoallv sends recvs"
  unfolding assms redistribute_def Let_def by (rule refl)

lemma piece_block:
  assumes "po_k \<le> po_k'" and "pb_i \<le> pb_i'"
  shows "take (min po_k' pb_i' - max po_k pb_i)
           (drop (min po_k pb_i' - pb_i) (take (pb_i' - pb_i) (drop pb_i xs)))
       = piece xs (max po_k pb_i) (min po_k' pb_i')"
proof (cases "max po_k pb_i < min po_k' pb_i'")
  case False
  then have "min po_k' pb_i' - max po_k pb_i = 0"
    by linarith
  then show ?thesis
    by (simp add: piece_def)
next
  case True
  define d where "d = min po_k pb_i' - pb_i"
  define c where "c = min po_k' pb_i' - max po_k pb_i"
  have "d + c \<le> pb_i' - pb_i" "pb_i + d = max po_k pb_i" "pb_i + d + c = min po_k' pb_i'"
    using True assms unfolding d_def c_def by linarith+
  then show ?thesis
    using take_drop_block [of d c "pb_i' - pb_i" pb_i xs]
    unfolding d_def [symmetric] c_def [symmetric] by simp
qed

lemma redistribute_chop:
  assumes p: "1 \<le> length segs" "length segs < 2 ^ 31"
    and lenb: "length buckets = length segs"
    and bsz: "\<And>i. i < length segs \<Longrightarrow> snd (buckets ! i) = of_nat (length (fst (buckets ! i)))"
    and same: "sum_list (map (\<lambda>b. length (fst b)) buckets) = sum_list (map length segs)"
    and total: "sum_list (map length segs) < 2 ^ 31"
  shows "redistribute segs buckets = Inr (chop (map length segs) (concat (map fst buckets)))"
proof -
  define p where "p = length segs"
  define os where "os = map length segs"
  define bs where "bs = map (\<lambda>b. length (fst b)) buckets"
  define G where "G = concat (map fst buckets)"
  define po where "po = (\<lambda>i. sum_list (take i os))"
  define pb where "pb = (\<lambda>i. sum_list (take i bs))"
  define T where "T = sum_list os"
  have len: "length os = p" "length bs = p"
    by (simp_all add: os_def bs_def p_def lenb)
  have T: "sum_list bs = T" "T < 2 ^ 31"
    using same total by (simp_all add: T_def os_def bs_def)
  have po0: "po 0 = 0" and pb0: "pb 0 = 0" and pop: "po p = T" and pbp: "pb p = T"
    using len T by (simp_all add: po_def pb_def T_def)
  have mono: "po i \<le> po (Suc i)" "pb i \<le> pb (Suc i)" for i
    unfolding po_def pb_def by (rule prefix_sum_mono)+
  have top: "po i \<le> T" "pb i \<le> T" for i
    using sum_list_take_le [of i os] sum_list_take_le [of i bs] T
    by (simp_all add: po_def pb_def T_def)
  have po_step: "po (Suc k) = po k + os ! k" if "k < p" for k
    using that len by (simp add: po_def sum_list_take_Suc)
  have pb_step: "pb (Suc i) = pb i + bs ! i" if "i < p" for i
    using that len by (simp add: pb_def sum_list_take_Suc)
  define S where "S = map (\<lambda>i. map (\<lambda>k. min (po (Suc k)) (pb (Suc i)) - max (po k) (pb i)) [0..<p])
                         [0..<p]"
  have lenS: "length S = p" by (simp add: S_def)
  have rows: "length (S ! i) = p" if "i < p" for i
    using that by (simp add: S_def)
  have Sik: "S ! i ! k = min (po (Suc k)) (pb (Suc i)) - max (po k) (pb i)"
    if "i < p" "k < p" for i k
    using that by (simp add: S_def)
  have row_prefix: "sum_list (take k (S ! i)) = min (po k) (pb (Suc i)) - pb i"
    if "i < p" "k \<le> p" for i k
  proof -
    have "take k (S ! i) = map (\<lambda>k. min (po (Suc k)) (pb (Suc i)) - max (po k) (pb i)) [0..<k]"
      using that by (simp add: S_def take_map min_def)
    then show ?thesis
      using overlap_prefix_sum [of po "pb i" "pb (Suc i)" k] mono
      by (simp add: po0)
  qed
  have row_sum: "sum_list (S ! i) = bs ! i" if "i < p" for i
    using row_prefix [OF that, of p] rows [OF that] top(2) [of "Suc i"] pb_step [OF that]
    by (simp add: pop)
  have col: "map (\<lambda>r. r ! k) S
      = map (\<lambda>i. min (pb (Suc i)) (po (Suc k)) - max (pb i) (po k)) [0..<p]" if "k < p" for k
    using that by (simp add: S_def min.commute max.commute)
  have col_sum: "sum_list (map (\<lambda>r. r ! k) S) = os ! k" if "k < p" for k
    using overlap_prefix_sum [of pb "po k" "po (Suc k)" p] mono top(1) [of "Suc k"]
      po_step [OF that]
    by (simp add: col [OF that] pb0 pbp)
  have os_small: "os ! k < 2 ^ 31" if "k < p" for k
    using nth_le_sum_list [of k os] that len T by (simp add: T_def)
  have bs_small: "bs ! i < 2 ^ 31" if "i < p" for i
    using nth_le_sum_list [of i bs] that len T by simp
  define numprocs where "numprocs = (of_nat (length segs) :: c_int)"
  have np: "nat (sint numprocs) = p"
    unfolding numprocs_def p_def using p(2) by (rule nat_sint_of_nat_small)
  define local_sizes where
    "local_sizes = map2 (\<lambda>seg (bucket_elems, bucket_size).
                          [of_nat (length seg), bucket_size :: c_int]) segs buckets"
  define all_sizes where "all_sizes = MPI_Allgather local_sizes"
  define counts where
    "counts = map2 (\<lambda>sizes myid. redistribute_counts sizes numprocs myid)
                all_sizes [0..<length segs]"
  define sends where
    "sends = map2 (\<lambda>(bucket_elems :: 'a list, bucket_size :: c_int) (send_counts, recv_counts :: c_int list).
                     (bucket_elems, send_counts,
                      exclusive_sum send_counts (nat (sint numprocs))))
               buckets counts"
  define recvs where
    "recvs = map2 (\<lambda>seg (send_counts :: c_int list, recv_counts).
                     (seg, recv_counts, exclusive_sum recv_counts (nat (sint numprocs))))
               segs counts"
  define flat where "flat = concat local_sizes"
  have local: "local_sizes
      = map (\<lambda>x. [of_nat (length (fst x)), snd (snd x)]) (zip segs buckets)"
    by (simp add: local_sizes_def split_def)
  have flat_o: "flat ! (2 * i) = of_nat (os ! i)"
    and flat_b: "flat ! (2 * i + 1) = of_nat (bs ! i)" if "i < p" for i
    using concat_pairs_nth [of i "zip segs buckets" "\<lambda>x. of_nat (length (fst x))"
        "\<lambda>x. snd (snd x)"] that bsz [of i]
    by (simp_all add: flat_def local lenb p_def os_def bs_def)
  have all: "all_sizes ! k = flat" if "k < p" for k
    using that by (simp add: all_sizes_def MPI_Allgather_def flat_def local_sizes_def lenb p_def)
  have len_all: "length all_sizes = p"
    by (simp add: all_sizes_def MPI_Allgather_def local_sizes_def lenb p_def)
  have cnt: "counts ! k
      = (map (\<lambda>i. of_nat (min (po (Suc i)) (pb (Suc k)) - max (po i) (pb k))) [0..<p],
         map (\<lambda>i. of_nat (min (pb (Suc i)) (po (Suc k)) - max (pb i) (po k))) [0..<p])"
    if "k < p" for k
  proof -
    have "counts ! k = redistribute_counts flat numprocs k"
      using that by (simp add: counts_def len_all p_def [symmetric] all)
    also have "\<dots> = (map (\<lambda>i. of_nat (min (po (Suc i)) (pb (Suc k)) - max (po i) (pb k))) [0..<p],
         map (\<lambda>i. of_nat (min (pb (Suc i)) (po (Suc k)) - max (pb i) (po k))) [0..<p])"
      unfolding po_def pb_def
      by (rule redistribute_counts_overlaps [OF flat_o flat_b len _ _ np that])
        (use T in \<open>simp_all add: T_def\<close>)
    finally show ?thesis .
  qed
  have len_counts: "length counts = p"
    by (simp add: counts_def len_all p_def)
  have snd_i: "sends ! i = (fst (buckets ! i), map of_nat (S ! i),
      exclusive_sum (map of_nat (S ! i)) p)" if "i < p" for i
    using that
    by (simp add: sends_def len_counts lenb p_def [symmetric] cnt np split_def)
      (simp add: S_def comp_def)
  have rcv_k: "recvs ! k = (segs ! k, map (\<lambda>r. of_nat (r ! k)) S,
      exclusive_sum (map (\<lambda>r. of_nat (r ! k)) S) p)" if "k < p" for k
  proof -
    have "map (\<lambda>r. (of_nat (r ! k) :: c_int)) S = map of_nat (map (\<lambda>r. r ! k) S)"
      by (simp add: comp_def)
    also have "\<dots> = map (\<lambda>i. of_nat (min (pb (Suc i)) (po (Suc k)) - max (pb i) (po k))) [0..<p]"
      unfolding col [OF that] by (simp add: comp_def)
    finally show ?thesis
      using that
      by (simp add: recvs_def len_counts p_def [symmetric] cnt np split_def)
  qed
  have block: "chop (S ! i) (fst (buckets ! i)) ! k
      = piece G (max (po k) (pb i)) (min (po (Suc k)) (pb (Suc i)))" if "i < p" "k < p" for i k
  proof -
    have "chop (map length (map fst buckets)) G = map fst buckets"
      unfolding G_def by (rule chop_concat)
    then have "chop (map length (map fst buckets)) G ! i = fst (buckets ! i)"
      using that(1) by (simp add: lenb p_def)
    then have "fst (buckets ! i) = chop (map length (map fst buckets)) G ! i"
      by (rule sym)
    also have "\<dots> = take (bs ! i) (drop (pb i) G)"
      using that(1) len by (simp add: chop_nth bs_def pb_def comp_def)
    finally have bi: "fst (buckets ! i) = take (pb (Suc i) - pb i) (drop (pb i) G)"
      using pb_step [OF that(1)] by simp
    have "chop (S ! i) (fst (buckets ! i)) ! k
        = take (min (po (Suc k)) (pb (Suc i)) - max (po k) (pb i))
            (drop (min (po k) (pb (Suc i)) - pb i) (fst (buckets ! i)))"
      using that by (simp add: chop_nth rows Sik row_prefix)
    also have "\<dots> = piece G (max (po k) (pb i)) (min (po (Suc k)) (pb (Suc i)))"
      unfolding bi using mono by (rule piece_block)
    finally show ?thesis .
  qed
  have a2a: "MPI_Alltoallv sends recvs
      = Inr (map (\<lambda>k. concat (map (\<lambda>i. chop (S ! i) (fst (buckets ! i)) ! k) [0..<p])) [0..<p])"
  proof (rule MPI_Alltoallv_blocks [where S = S and p = p and rbuf = "\<lambda>k. segs ! k"])
    show "length S = p" by (rule lenS)
    show "length sends = p" by (simp add: sends_def len_counts lenb p_def)
    show "length recvs = p" by (simp add: recvs_def len_counts p_def)
    show "\<And>i. i < p \<Longrightarrow> length (S ! i) = p" by (rule rows)
    show "\<And>i. i < p \<Longrightarrow> sends ! i = (fst (buckets ! i), map of_nat (S ! i),
        exclusive_sum (map of_nat (S ! i)) p)" by (rule snd_i)
    show "\<And>i. i < p \<Longrightarrow> sum_list (S ! i) \<le> length (fst (buckets ! i))"
      by (simp add: row_sum bs_def lenb p_def)
    show "\<And>i. i < p \<Longrightarrow> sum_list (S ! i) < 2 ^ 31"
      using bs_small by (simp add: row_sum)
    show "\<And>k. k < p \<Longrightarrow> recvs ! k = (segs ! k, map (\<lambda>r. of_nat (r ! k)) S,
        exclusive_sum (map (\<lambda>r. of_nat (r ! k)) S) p)" by (rule rcv_k)
    show "\<And>k. k < p \<Longrightarrow> length (segs ! k) = sum_list (map (\<lambda>r. r ! k) S)"
      by (simp add: col_sum os_def p_def)
    show "\<And>k. k < p \<Longrightarrow> sum_list (map (\<lambda>r. r ! k) S) < 2 ^ 31"
      using os_small by (simp add: col_sum)
  qed
  have "map (\<lambda>k. concat (map (\<lambda>i. chop (S ! i) (fst (buckets ! i)) ! k) [0..<p])) [0..<p]
      = chop os G"
  proof (rule nth_equalityI)
    show "length (map (\<lambda>k. concat (map (\<lambda>i. chop (S ! i) (fst (buckets ! i)) ! k) [0..<p])) [0..<p])
        = length (chop os G)"
      by (simp add: length_chop len)
  next
    fix k
    assume "k < length (map (\<lambda>k. concat (map (\<lambda>i. chop (S ! i) (fst (buckets ! i)) ! k) [0..<p]))
        [0..<p])"
    then have k: "k < p" by simp
    have eq: "map (\<lambda>i. chop (S ! i) (fst (buckets ! i)) ! k) [0..<p]
        = map (\<lambda>i. piece G (max (po k) (pb i)) (min (po (Suc k)) (pb (Suc i)))) [0..<p]"
      using k by (intro map_cong refl block) simp_all
    have "concat (map (\<lambda>i. piece G (max (po k) (pb i)) (min (po (Suc k)) (pb (Suc i)))) [0..<p])
        = piece G (po k) (max (po k) (min (po (Suc k)) (pb p)))"
      by (rule concat_pieces) (simp_all add: mono pb0)
    then have "concat (map (\<lambda>i. chop (S ! i) (fst (buckets ! i)) ! k) [0..<p])
        = piece G (po k) (max (po k) (min (po (Suc k)) (pb p)))"
      unfolding eq .
    also have "max (po k) (min (po (Suc k)) (pb p)) = po (Suc k)"
      using top(1) [of "Suc k"] mono(1) [of k] by (simp add: pbp)
    also have "piece G (po k) (po (Suc k)) = chop os G ! k"
      using k len po_step [OF k] by (simp add: chop_nth piece_def po_def)
    finally show "map (\<lambda>k. concat (map (\<lambda>i. chop (S ! i) (fst (buckets ! i)) ! k) [0..<p])) [0..<p] ! k
        = chop os G ! k"
      using k by simp
  qed
  with a2a have "MPI_Alltoallv sends recvs = Inr (chop os G)"
    by simp
  moreover have "redistribute segs buckets = MPI_Alltoallv sends recvs"
    using numprocs_def local_sizes_def all_sizes_def counts_def sends_def recvs_def
    by (rule redistribute_steps)
  ultimately show ?thesis
    by (simp add: os_def G_def)
qed

section \<open>samplesort on all ranks\<close>

lemma mset_concat_map_srt:
  assumes "std_sort_contract cmp srt"
  shows "mset (concat (map srt xss)) = mset (concat xss)"
  by (induction xss) (simp_all add: srt_mset [OF assms])

lemma sum_length_map_srt:
  assumes "std_sort_contract cmp srt"
  shows "map length (map srt xss) = map length xss"
  by (simp add: srt_length [OF assms])

lemma srt_Nil: "std_sort_contract cmp srt \<Longrightarrow> srt [] = []"
  using srt_length [of cmp srt "[]"] by simp

lemma sort_range_all: "sort_range srt b (length b) = srt b"
  by (simp add: sort_range_def)

text \<open>
  The buckets after the exchange, for ranks with sorted non-empty segments: a
  permutation of the input in which every element of an earlier bucket is not greater
  than any element of a later one.
\<close>

lemma get_buckets_result:
  assumes swo: "strict_weak_order cmp"
    and p: "2 \<le> length segs" "length segs \<le> 65536"
    and total: "sum_list (map length segs) < 2 ^ 31"
    and nonempty: "[] \<notin> set segs"
    and sorted: "\<And>seg. seg \<in> set segs \<Longrightarrow> sorted_by cmp seg"
    and srt: "\<And>xs. length (srt xs) = length xs"
  shows "\<exists>E. get_buckets srt cmp uninit segs = Inr (map (\<lambda>b. (b, of_nat (length b))) E)
       \<and> length E = length segs
       \<and> mset (concat E) = mset (concat segs)
       \<and> (\<forall>i j x y. i < j \<and> j < length E \<and> x \<in> set (E ! i) \<and> y \<in> set (E ! j) \<longrightarrow> \<not> cmp y x)"
proof -
  obtain sp where sp: "length sp = length segs - 1"
    and gb: "get_buckets srt cmp uninit segs
       = Inr (map (\<lambda>b. (b, of_nat (length b)))
                (exchange (map (\<lambda>seg. map unat (split_loop cmp seg sp 0)) segs) segs))"
    using get_buckets_exchange [OF p total nonempty srt] by blast
  define S where "S = map (\<lambda>seg. map unat (split_loop cmp seg sp 0)) segs"
  define E where "E = exchange S segs"
  have seg_len: "length seg \<le> sum_list (map length segs)" if "seg \<in> set segs" for seg
    using that by (metis elem_le_sum_list in_set_conv_nth length_map nth_map)
  have seg32: "length (segs ! i) < 2 ^ 32" if "i < length segs" for i
    using seg_len [of "segs ! i"] that total by simp
  have rows: "length (S ! i) = length segs" if "i < length segs" for i
    using that p by (simp add: S_def length_split_loop sp)
  have row_sum: "sum_list (S ! i) = length (segs ! i)" if "i < length segs" for i
    using that split_loop_sizes [OF seg32 [OF that], of 0 cmp sp] by (simp add: S_def)
  have bucket: "(k < length sp \<longrightarrow> cmp x (sp ! k)) \<and> (\<forall>j<k. \<not> cmp x (sp ! j))"
    if "k < length segs" "x \<in> set (E ! k)" for k x
  proof -
    from set_exchange_nth [OF that [unfolded E_def]]
    obtain i where i: "i < length segs" "x \<in> set (chop (S ! i) (segs ! i) ! k)"
      by blast
    have "x \<in> set (chop (map unat (split_loop cmp (segs ! i) sp 0)) (drop 0 (segs ! i)) ! k)"
      using i by (simp add: S_def)
    moreover have "k \<le> length sp"
      using that(1) sp by simp
    moreover have "sorted_by cmp (segs ! i)"
      using i(1) by (intro sorted) simp
    ultimately show ?thesis
      using split_loop_buckets [OF swo _ seg32 [OF i(1)], of 0 k sp x] by simp
  qed
  have cross: "\<not> cmp y x"
    if "i < j" "j < length E" "x \<in> set (E ! i)" "y \<in> set (E ! j)" for i j x y
  proof -
    have j: "j < length segs" using that(2) by (simp add: E_def length_exchange)
    then have "i < length sp" using that(1) sp by simp
    with bucket [of i x] that(1,3) j have "cmp x (sp ! i)" by simp
    moreover from bucket [OF j that(4)] that(1) have "\<not> cmp y (sp ! i)" by simp
    ultimately show ?thesis
      using swo_trans [OF swo] by blast
  qed
  have m: "mset (concat E) = mset (concat segs)"
    unfolding E_def by (rule mset_concat_exchange) (simp_all add: rows row_sum)
  have l: "length E = length segs"
    by (simp add: E_def length_exchange)
  have g: "get_buckets srt cmp uninit segs = Inr (map (\<lambda>b. (b, of_nat (length b))) E)"
    using gb by (simp add: E_def S_def)
  have c: "\<forall>i j x y. i < j \<and> j < length E \<and> x \<in> set (E ! i) \<and> y \<in> set (E ! j) \<longrightarrow> \<not> cmp y x"
    using cross by blast
  show ?thesis
    using g l m c by blast
qed

lemma samplesort_result:
  assumes swo: "strict_weak_order cmp" and contract: "std_sort_contract cmp srt"
    and p: "2 \<le> length segs" "length segs \<le> 65536"
    and total: "sum_list (map length segs) < 2 ^ 31"
    and nonempty: "[] \<notin> set segs"
  shows "\<exists>G. samplesort srt cmp uninit segs = Inr (chop (map length segs) G)
       \<and> sorted_by cmp G \<and> mset G = mset (concat segs)"
proof -
  note len = srt_length [OF contract]
  define ss where "ss = map srt segs"
  have ss_len: "length ss = length segs" "map length ss = map length segs"
    by (simp_all add: ss_def len)
  have ss_nonempty: "[] \<notin> set ss"
  proof
    assume "[] \<in> set ss"
    then obtain seg where "seg \<in> set segs" "srt seg = []"
      by (auto simp: ss_def)
    then have "length seg = 0" using len [of seg] by simp
    with \<open>seg \<in> set segs\<close> nonempty show False by simp
  qed
  have ss_sorted: "sorted_by cmp seg" if "seg \<in> set ss" for seg
    using that srt_sorted [OF contract] by (auto simp: ss_def)
  obtain E where gb: "get_buckets srt cmp uninit ss = Inr (map (\<lambda>b. (b, of_nat (length b))) E)"
    and lenE: "length E = length segs"
    and msetE: "mset (concat E) = mset (concat ss)"
    and cross: "\<And>i j x y. i < j \<Longrightarrow> j < length E \<Longrightarrow> x \<in> set (E ! i) \<Longrightarrow> y \<in> set (E ! j)
        \<Longrightarrow> \<not> cmp y x"
    using get_buckets_result [OF swo _ _ _ ss_nonempty ss_sorted len, of uninit]
      p total unfolding ss_len by blast
  have sizeE: "sum_list (map length E) = sum_list (map length segs)"
  proof -
    have "length (concat E) = length (concat ss)"
      using msetE by (metis size_mset)
    then show ?thesis
      by (simp add: length_concat ss_len)
  qed
  have b_small: "length b < 2 ^ 31" if "b \<in> set E" for b
  proof -
    have "length b \<le> sum_list (map length E)"
      using that by (metis elem_le_sum_list in_set_conv_nth length_map nth_map)
    then show ?thesis using sizeE total by simp
  qed
  define buckets where "buckets = map (\<lambda>b. (srt b, (of_nat (length b) :: c_int))) E"
  have sorted_buckets: "map (\<lambda>(bucket_elems, bucket_size).
        (sort_range srt bucket_elems (nat (sint bucket_size)), bucket_size))
      (map (\<lambda>b. (b, (of_nat (length b) :: c_int))) E) = buckets"
    unfolding buckets_def
    by (simp add: nat_sint_of_nat_small [OF b_small] sort_range_all)
  define G where "G = concat (map srt E)"
  have "redistribute ss buckets = Inr (chop (map length ss) (concat (map fst buckets)))"
  proof (rule redistribute_chop)
    show "1 \<le> length ss" "length ss < 2 ^ 31"
      using p by (simp_all add: ss_len)
    show "length buckets = length ss"
      by (simp add: buckets_def lenE ss_len)
    show "\<And>i. i < length ss \<Longrightarrow> snd (buckets ! i) = of_nat (length (fst (buckets ! i)))"
      by (simp add: buckets_def lenE ss_len len)
    show "sum_list (map (\<lambda>b. length (fst b)) buckets) = sum_list (map length ss)"
      using sizeE by (simp add: buckets_def comp_def len ss_len)
    show "sum_list (map length ss) < 2 ^ 31"
      using total by (simp add: ss_len)
  qed
  moreover have "concat (map fst buckets) = G"
    by (simp add: buckets_def G_def comp_def)
  ultimately have red: "redistribute ss buckets = Inr (chop (map length segs) G)"
    by (simp add: ss_len)
  have "length segs < 2 ^ 31" using p by simp
  then have "sint (of_nat (length segs) :: c_int) = int (length segs)"
    by (rule sint_of_nat_small)
  then have "\<not> sint (of_nat (length segs) :: c_int) \<le> 1"
    using p by simp
  then have run: "samplesort srt cmp uninit segs = Inr (chop (map length segs) G)"
    unfolding samplesort_def Let_def ss_def [symmetric]
    by (simp only: if_False gb sum.case sorted_buckets red)
  have "sorted_by cmp G"
    unfolding G_def
  proof (rule sorted_by_concat)
    fix xs assume "xs \<in> set (map srt E)"
    then show "sorted_by cmp xs"
      using srt_sorted [OF contract] by auto
  next
    fix i j x y
    assume "i < j" "j < length (map srt E)" "x \<in> set (map srt E ! i)" "y \<in> set (map srt E ! j)"
    then show "\<not> cmp y x"
      using cross [of i j x y] by (simp add: srt_set [OF contract])
  qed
  moreover have "mset G = mset (concat segs)"
    unfolding G_def
    using msetE by (simp add: mset_concat_map_srt [OF contract] ss_def)
  ultimately show ?thesis
    using run by blast
qed

lemma samplesort_empty_segment:
  assumes contract: "std_sort_contract cmp srt"
    and p: "2 \<le> length segs" "length segs \<le> 65536"
    and empty: "[] \<in> set segs"
  shows "samplesort srt cmp uninit segs = Inl Assertion_failed"
proof -
  define ss where "ss = map srt segs"
  have "srt [] \<in> set ss"
    using empty by (simp add: ss_def)
  then have e: "[] \<in> set ss"
    by (simp add: srt_Nil [OF contract])
  have l: "length ss = length segs"
    by (simp add: ss_def)
  have "get_splitters srt ss (of_nat (length ss)) = Inl Assertion_failed"
    using p e unfolding l [symmetric] by (rule get_splitters_empty_segment)
  then have gb: "get_buckets srt cmp uninit ss = Inl Assertion_failed"
    by (simp add: get_buckets_def)
  have "length segs < 2 ^ 31" using p by simp
  then have "sint (of_nat (length segs) :: c_int) = int (length segs)"
    by (rule sint_of_nat_small)
  then have "\<not> sint (of_nat (length segs) :: c_int) \<le> 1"
    using p by simp
  then show ?thesis
    unfolding samplesort_def Let_def ss_def [symmetric]
    by (simp only: if_False gb sum.case)
qed

section \<open>A comparator and a sort to run the model with\<close>

lemma strict_weak_order_less: "strict_weak_order ((<) :: 'a :: linorder \<Rightarrow> 'a \<Rightarrow> bool)"
  by (auto simp: strict_weak_order_def)

lemma std_sort_contract_sort:
  "std_sort_contract ((<) :: 'a :: linorder \<Rightarrow> 'a \<Rightarrow> bool) sort"
proof -
  have "(\<lambda>x y :: 'a. \<not> y < x) = (\<le>)"
    by (auto simp: fun_eq_iff)
  then show ?thesis
    by (simp add: std_sort_contract_def sorted_by_def)
qed

lemma concat_chop_all: "sum_list ns = length xs \<Longrightarrow> concat (chop ns xs) = xs"
  by (simp add: concat_chop)

lemma length_chop_all:
  assumes "sum_list ns = length xs"
  shows "map length (chop ns xs) = ns"
proof (rule nth_equalityI)
  show "length (map length (chop ns xs)) = length ns"
    by (simp add: length_chop)
next
  fix k assume "k < length (map length (chop ns xs))"
  then have "k < length ns" by (simp add: length_chop)
  then show "map length (chop ns xs) ! k = ns ! k"
    using assms by (simp add: length_chop length_chop_nth)
qed

lemma sorted_by_single_rank:
  assumes "std_sort_contract cmp srt" and "length segs \<le> 1"
  shows "sorted_by cmp (concat (map srt segs))"
proof (cases segs)
  case Nil
  then show ?thesis by (simp add: sorted_by_def)
next
  case (Cons seg rest)
  with assms(2) have "rest = []" by simp
  with Cons show ?thesis
    by (simp add: srt_sorted [OF assms(1)])
qed

text \<open>The three ways a run of samplesort can go, within the capacity of the counts.\<close>

lemma samplesort_cases:
  assumes swo: "strict_weak_order cmp" and contract: "std_sort_contract cmp srt"
    and total: "sum_list (map length segs) < 2 ^ 31" and p: "length segs \<le> 65536"
  obtains (single) "length segs \<le> 1" "samplesort srt cmp uninit segs = Inr (map srt segs)"
  | (failed) "2 \<le> length segs" "[] \<in> set segs"
      "samplesort srt cmp uninit segs = Inl Assertion_failed"
  | (sorted) G where "2 \<le> length segs" "[] \<notin> set segs"
      "samplesort srt cmp uninit segs = Inr (chop (map length segs) G)"
      "sorted_by cmp G" "mset G = mset (concat segs)"
proof (cases "length segs \<le> 1")
  case True
  show ?thesis
    by (rule single [OF True samplesort_single [OF True]])
next
  case False
  then have p2: "2 \<le> length segs" by simp
  show ?thesis
  proof (cases "[] \<in> set segs")
    case True
    show ?thesis
      by (rule failed [OF p2 True samplesort_empty_segment [OF contract p2 p True]])
  next
    case False
    obtain G where "samplesort srt cmp uninit segs = Inr (chop (map length segs) G)"
      "sorted_by cmp G" "mset G = mset (concat segs)"
      using samplesort_result [OF swo contract p2 p total False, of uninit] by blast
    then show ?thesis
      by (rule sorted [OF p2 False])
  qed
qed

lemma mset_length_concat:
  "mset G = mset (concat segs) \<Longrightarrow> sum_list (map length segs) = length G"
  by (metis length_concat size_mset)

section \<open>Sizes at the stage boundaries\<close>

lemma sum_list_sint_of_nat:
  assumes "sum_list ns < 2 ^ 31"
  shows "sum_list (map (\<lambda>n. sint (of_nat n :: c_int)) ns) = int (sum_list ns)"
  using assms
proof (induction ns)
  case Nil
  then show ?case by simp
next
  case (Cons n ns)
  then have "n < 2 ^ 31" "sum_list ns < 2 ^ 31" by simp_all
  with Cons.IH show ?case
    by (simp add: sint_of_nat_small)
qed

lemma get_buckets_sizes:
  assumes p: "2 \<le> length segs" "length segs \<le> 65536"
    and total: "sum_list (map length segs) < 2 ^ 31"
    and srt: "\<And>xs. length (srt xs) = length xs"
    and gb: "get_buckets srt cmp uninit segs = Inr buckets"
  shows "length buckets = length segs"
    and "\<And>i. i < length segs \<Longrightarrow> snd (buckets ! i) = of_nat (length (fst (buckets ! i)))"
    and "sum_list (map (\<lambda>b. length (fst b)) buckets) = sum_list (map length segs)"
    and "[] \<notin> set segs"
proof -
  show ne: "[] \<notin> set segs"
  proof
    assume "[] \<in> set segs"
    with p have "get_splitters srt segs (of_nat (length segs)) = Inl Assertion_failed"
      by (rule get_splitters_empty_segment)
    then have "get_buckets srt cmp uninit segs = Inl Assertion_failed"
      by (simp add: get_buckets_def)
    with gb show False by simp
  qed
  obtain sp where sp: "length sp = length segs - 1"
    and ex: "get_buckets srt cmp uninit segs
       = Inr (map (\<lambda>b. (b, of_nat (length b)))
                (exchange (map (\<lambda>seg. map unat (split_loop cmp seg sp 0)) segs) segs))"
    using get_buckets_exchange [OF p total ne srt] by blast
  define S where "S = map (\<lambda>seg. map unat (split_loop cmp seg sp 0)) segs"
  define E where "E = exchange S segs"
  have b: "buckets = map (\<lambda>b. (b, of_nat (length b))) E"
    using gb ex by (simp add: E_def S_def)
  have lenE: "length E = length segs"
    by (simp add: E_def length_exchange)
  show "length buckets = length segs"
    by (simp add: b lenE)
  show "\<And>i. i < length segs \<Longrightarrow> snd (buckets ! i) = of_nat (length (fst (buckets ! i)))"
    by (simp add: b lenE)
  have seg_len: "length seg \<le> sum_list (map length segs)" if "seg \<in> set segs" for seg
    using that by (metis elem_le_sum_list in_set_conv_nth length_map nth_map)
  have seg32: "length (segs ! i) < 2 ^ 32" if "i < length segs" for i
    using seg_len [of "segs ! i"] that total by simp
  have rows: "length (S ! i) = length segs" if "i < length segs" for i
    using that p by (simp add: S_def length_split_loop sp)
  have row_sum: "sum_list (S ! i) = length (segs ! i)" if "i < length segs" for i
    using that split_loop_sizes [OF seg32 [OF that], of 0 cmp sp] by (simp add: S_def)
  have "mset (concat E) = mset (concat segs)"
    unfolding E_def by (rule mset_concat_exchange) (simp_all add: rows row_sum)
  then have "length (concat E) = length (concat segs)"
    by (metis size_mset)
  then show "sum_list (map (\<lambda>b. length (fst b)) buckets) = sum_list (map length segs)"
    by (simp add: b comp_def length_concat)
qed

text \<open>The receive counts of a rank add up to the size of its original segment.\<close>

lemma recv_counts_total:
  assumes sizes: "\<And>i. i < p \<Longrightarrow> all_sizes ! (2 * i) = of_nat (os ! i)"
      "\<And>i. i < p \<Longrightarrow> all_sizes ! (2 * i + 1) = of_nat (bs ! i)"
    and len: "length os = p" "length bs = p"
    and same: "sum_list bs = sum_list os" and total: "sum_list os < 2 ^ 31"
    and np: "nat (sint numprocs) = p" and k: "k < p"
  shows "sum_list (map sint (snd (redistribute_counts all_sizes numprocs k))) = int (os ! k)"
proof -
  define po where "po = (\<lambda>i. sum_list (take i os))"
  define pb where "pb = (\<lambda>i. sum_list (take i bs))"
  have mono: "pb i \<le> pb (Suc i)" for i
    unfolding pb_def by (rule prefix_sum_mono)
  have pb0: "pb 0 = 0" and pbp: "pb p = sum_list os"
    using len same by (simp_all add: pb_def)
  have step: "po (Suc k) = po k + os ! k"
    using k len by (simp add: po_def sum_list_take_Suc)
  have top: "po (Suc k) \<le> sum_list os"
    unfolding po_def by (rule sum_list_take_le)
  define rc where "rc = map (\<lambda>i. min (pb (Suc i)) (po (Suc k)) - max (pb i) (po k)) [0..<p]"
  have "redistribute_counts all_sizes numprocs k
      = (map (\<lambda>i. of_nat (min (po (Suc i)) (pb (Suc k)) - max (po i) (pb k))) [0..<p],
         map (\<lambda>i. of_nat (min (pb (Suc i)) (po (Suc k)) - max (pb i) (po k))) [0..<p])"
    unfolding po_def pb_def
    by (rule redistribute_counts_overlaps [OF sizes len _ _ np k])
      (use same total in simp_all)
  then have rcv: "snd (redistribute_counts all_sizes numprocs k) = map of_nat rc"
    by (simp add: rc_def comp_def)
  have sum: "sum_list rc = os ! k"
    unfolding rc_def
    using overlap_prefix_sum [of pb "po k" "po (Suc k)" p] mono step top
    by (simp add: pb0 pbp)
  then have "sum_list rc < 2 ^ 31"
    using nth_le_sum_list [of k os] k len total by simp
  then have "sum_list (map (\<lambda>n. sint (of_nat n :: c_int)) rc) = int (sum_list rc)"
    by (rule sum_list_sint_of_nat)
  then show ?thesis
    by (simp add: rcv comp_def sum)
qed

lemma recv_counts_total_ranks:
  assumes p: "1 \<le> length segs" "length segs < 2 ^ 31"
    and lenb: "length buckets = length segs"
    and bsz: "\<And>i. i < length segs \<Longrightarrow> snd (buckets ! i) = of_nat (length (fst (buckets ! i)))"
    and same: "sum_list (map (\<lambda>b. length (fst b)) buckets) = sum_list (map length segs)"
    and total: "sum_list (map length segs) < 2 ^ 31"
    and k: "k < length segs"
  shows "sum_list (map sint (snd (redistribute_counts
            (concat (map2 (\<lambda>seg (bucket_elems, bucket_size). [of_nat (length seg), bucket_size])
                       segs buckets))
            (of_nat (length segs)) k)))
       = int (length (segs ! k))"
proof -
  define flat where "flat = concat (map2 (\<lambda>seg (bucket_elems :: 'b list, bucket_size :: c_int).
      [of_nat (length seg), bucket_size]) segs buckets)"
  have local: "flat = concat (map (\<lambda>x. [of_nat (length (fst x)), snd (snd x)]) (zip segs buckets))"
    by (simp add: flat_def split_def)
  have flat_o: "flat ! (2 * i) = of_nat (map length segs ! i)"
    and flat_b: "flat ! (2 * i + 1) = of_nat (map (\<lambda>b. length (fst b)) buckets ! i)"
    if "i < length segs" for i
    using concat_pairs_nth [of i "zip segs buckets" "\<lambda>x. of_nat (length (fst x))"
        "\<lambda>x. snd (snd x)"] that bsz [of i]
    by (simp_all add: local lenb)
  have np: "nat (sint (of_nat (length segs) :: c_int)) = length segs"
    using p(2) by (rule nat_sint_of_nat_small)
  have "sum_list (map sint (snd (redistribute_counts flat (of_nat (length segs)) k)))
      = int (map length segs ! k)"
    by (rule recv_counts_total [OF flat_o flat_b _ _ same _ np k])
      (use lenb total in simp_all)
  then show ?thesis
    using k by (simp add: flat_def)
qed

section \<open>The buckets of one rank\<close>

lemma split_loop_blocks:
  assumes "length seg < 2 ^ 31" and "i \<le> length sps"
  shows "send_block (seg, split_loop cmp seg sps 0,
            exclusive_sum (split_loop cmp seg sps 0) (length sps + 1)) i
       = Inr (chop (map unat (split_loop cmp seg sps 0)) seg ! i)"
proof -
  define ns where "ns = map unat (split_loop cmp seg sps 0)"
  have c: "split_loop cmp seg sps 0 = map of_nat ns"
    by (simp add: ns_def comp_def)
  have l: "length ns = length sps + 1"
    by (simp add: ns_def length_split_loop)
  have "length seg < 2 ^ 32" using assms(1) by simp
  then have s: "sum_list ns = length seg"
    unfolding ns_def using split_loop_sizes [of seg 0 cmp sps] by simp
  have "send_block (seg, map of_nat ns, exclusive_sum (map of_nat ns) (length ns)) i
      = Inr (chop ns seg ! i)"
    by (rule send_block_chop) (use assms l s in simp_all)
  then have "send_block (seg, split_loop cmp seg sps 0,
            exclusive_sum (split_loop cmp seg sps 0) (length sps + 1)) i
      = Inr (chop ns seg ! i)"
    unfolding c [symmetric] l .
  then show ?thesis
    unfolding ns_def .
qed

section \<open>The splitters are sorted\<close>

lemma sorted_by_picks:
  assumes "sorted_by cmp xs"
    and "\<And>i. i < n \<Longrightarrow> f i < length xs"
    and "\<And>i j. i < j \<Longrightarrow> j < n \<Longrightarrow> f i < f j"
  shows "sorted_by cmp (map (\<lambda>i. xs ! f i) [0..<n])"
  unfolding sorted_by_def sorted_wrt_iff_nth_less
  using assms sorted_by_nth [OF assms(1)] by simp

lemma get_splitters_sorted:
  assumes contract: "std_sort_contract cmp srt"
    and p: "2 \<le> length segs" "length segs \<le> 65536"
    and segs: "\<And>seg. seg \<in> set segs \<Longrightarrow> 0 < length seg \<and> length seg < 2 ^ 32"
  shows "\<exists>sp. get_splitters srt segs (of_nat (length segs)) = Inr (replicate (length segs) sp)
       \<and> length sp = length segs - 1 \<and> sorted_by cmp sp"
proof -
  define p where "p = length segs"
  define smp where "smp = concat (map (\<lambda>seg. map (\<lambda>i. seg ! sample_index (length seg) p i)
      [0..<p - 1]) segs)"
  define sp where "sp = map (\<lambda>i. srt smp ! ((i + 1) * (p - 1) - 1)) [0..<p - 1]"
  have gs: "get_splitters srt segs (of_nat (length segs)) = Inr (replicate (length segs) sp)"
    unfolding sp_def smp_def p_def
    using p segs srt_length [OF contract] by (rule get_splitters_positions)
  have "sum_list (map length (map (\<lambda>seg. map (\<lambda>i. seg ! sample_index (length seg) p i)
      [0..<p - 1]) segs)) = sum_list (map (\<lambda>seg. p - 1) segs)"
    by (simp add: comp_def)
  also have "\<dots> = p * (p - 1)"
    by (simp add: sum_list_triv p_def)
  finally have len: "length (srt smp) = p * (p - 1)"
    by (simp add: smp_def length_concat srt_length [OF contract])
  have inb: "(i + 1) * (p - 1) - 1 < length (srt smp)" if "i < p - 1" for i
  proof -
    have "(i + 1) * (p - 1) \<le> p * (p - 1)"
      using that by (intro mult_le_mono) simp_all
    moreover have "0 < (i + 1) * (p - 1)"
      using that by simp
    ultimately show ?thesis
      unfolding len by linarith
  qed
  have inc: "(i + 1) * (p - 1) - 1 < (j + 1) * (p - 1) - 1" if "i < j" "j < p - 1" for i j
  proof -
    have "(i + 1) * (p - 1) + (p - 1) \<le> (j + 1) * (p - 1)"
      using that mult_le_mono1 [of "i + 2" "j + 1" "p - 1"] by (simp add: algebra_simps)
    moreover have "0 < p - 1" "0 < (i + 1) * (p - 1)"
      using that by simp_all
    ultimately show ?thesis by linarith
  qed
  have "sorted_by cmp sp"
    unfolding sp_def
    using srt_sorted [OF contract] inb inc by (rule sorted_by_picks)
  then show ?thesis
    using gs by (intro exI [of _ sp]) (simp add: sp_def p_def)
qed

section \<open>The log and the result\<close>

lemma get_splitters_log_result:
  "snd (get_splitters_log srt segs numprocs) = get_splitters srt segs numprocs"
  by (simp add: get_splitters_log_def get_splitters_def split: sum.splits)

lemma get_buckets_log_result:
  "snd (get_buckets_log srt cmp uninit segs) = get_buckets srt cmp uninit segs"
proof -
  obtain es r where gs: "get_splitters_log srt segs (of_nat (length segs)) = (es, r)"
    by (cases "get_splitters_log srt segs (of_nat (length segs))")
  then have "get_splitters srt segs (of_nat (length segs)) = r"
    using get_splitters_log_result [of srt segs "of_nat (length segs)"] by simp
  then show ?thesis
    using gs by (simp add: get_buckets_log_def get_buckets_def Let_def split: sum.splits)
qed

lemma samplesort_log_result:
  "snd (samplesort_log srt cmp uninit segs) = samplesort srt cmp uninit segs"
proof -
  obtain es r where gb: "get_buckets_log srt cmp uninit (map srt segs) = (es, r)"
    by (cases "get_buckets_log srt cmp uninit (map srt segs)")
  then have "get_buckets srt cmp uninit (map srt segs) = r"
    using get_buckets_log_result [of srt cmp uninit "map srt segs"] by simp
  then show ?thesis
    using gb
    by (simp add: samplesort_log_def samplesort_def redistribute_log_def Let_def
        split: sum.splits)
qed

lemma samplesort_log_single:
  assumes "length segs \<le> 1"
  shows "samplesort_log srt cmp uninit segs = ([], Inr (map srt segs))"
proof -
  from assms have "length segs = 0 \<or> length segs = 1" by linarith
  then have "sint (of_nat (length segs) :: c_int) \<le> 1"
    by auto
  then show ?thesis
    by (simp add: samplesort_log_def)
qed

section \<open>What is logged before any size can matter\<close>

lemma get_splitters_log_Inr:
  "get_splitters srt segs numprocs = Inr splitters \<Longrightarrow>
     get_splitters_log srt segs numprocs
       = ([Allocate Sample, Allocate All_samples, Collective Gather, Collective Bcast],
          Inr splitters)"
  by (auto simp: get_splitters_log_def get_splitters_def split: sum.splits)

lemma get_buckets_log_prefix:
  assumes "get_splitters_log srt segs (of_nat (length segs)) = (es, Inr splitters)"
  shows "\<exists>es' r. get_buckets_log srt cmp uninit segs
       = (es @ [Allocate Send_split_counts, Allocate Recv_split_counts, Collective Alltoall]
             @ es', r)"
  using assms
  by (simp add: get_buckets_log_def Let_def split: sum.splits)

lemma samplesort_log_collectives:
  assumes len: "\<And>xs. length (srt xs) = length xs"
    and p: "2 \<le> length segs" "length segs \<le> 65536"
    and segs: "\<And>seg. seg \<in> set segs \<Longrightarrow> 0 < length seg \<and> length seg < 2 ^ 32"
  shows "\<exists>es r. samplesort_log srt cmp uninit segs
       = ([Allocate Sample, Allocate All_samples, Collective Gather, Collective Bcast,
           Allocate Send_split_counts, Allocate Recv_split_counts, Collective Alltoall]
            @ es, r)"
proof -
  define ss where "ss = map srt segs"
  have l: "length ss = length segs"
    by (simp add: ss_def)
  have ss: "0 < length seg \<and> length seg < 2 ^ 32" if "seg \<in> set ss" for seg
  proof -
    from that obtain x where x: "x \<in> set segs" "seg = srt x"
      by (auto simp: ss_def)
    then have "length seg = length x"
      by (simp add: len)
    with segs [OF x(1)] show ?thesis by simp
  qed
  obtain sp where "get_splitters srt ss (of_nat (length ss)) = Inr (replicate (length ss) sp)"
    using get_splitters_ok [OF _ _ ss len, of ss] p l by auto
  then have "get_splitters_log srt ss (of_nat (length ss))
      = ([Allocate Sample, Allocate All_samples, Collective Gather, Collective Bcast],
         Inr (replicate (length ss) sp))"
    by (rule get_splitters_log_Inr)
  from get_buckets_log_prefix [OF this, of cmp uninit]
  obtain es' r where gb: "get_buckets_log srt cmp uninit ss
      = ([Allocate Sample, Allocate All_samples, Collective Gather, Collective Bcast,
          Allocate Send_split_counts, Allocate Recv_split_counts, Collective Alltoall]
           @ es', r)"
    by auto
  have "length segs < 2 ^ 31" using p by simp
  then have "sint (of_nat (length segs) :: c_int) = int (length segs)"
    by (rule sint_of_nat_small)
  then have big: "\<not> sint (of_nat (length segs) :: c_int) \<le> 1"
    using p by simp
  show ?thesis
  proof (cases r)
    case (Inl e)
    then show ?thesis
      using big gb unfolding samplesort_log_def Let_def ss_def [symmetric]
      by simp
  next
    case (Inr buckets)
    then show ?thesis
      using big gb unfolding samplesort_log_def Let_def ss_def [symmetric]
      by (simp add: redistribute_log_def)
  qed
qed

section \<open>A run beyond the capacity of int\<close>

lemma samplesort_log_oversized:
  assumes len: "length big = 2 ^ 31" and srt: "sort big = big"
    and zero: "\<And>i. i < 2 ^ 31 \<Longrightarrow> big ! i = (0 :: nat)"
  shows "samplesort_log sort (<) 0 [big, [0]]
       = ([Allocate Sample, Allocate All_samples, Collective Gather, Collective Bcast,
           Allocate Send_split_counts, Allocate Recv_split_counts, Collective Alltoall,
           Allocate Send_displacements, Allocate Recv_displacements],
          Inl Bad_alloc)"
proof -
  have pre: "2 \<le> length [big, [0]]" "length [big, [0]] \<le> 65536"
    "\<And>seg. seg \<in> set [big, [0]] \<Longrightarrow> 0 < length seg \<and> length seg < 2 ^ 32"
    "\<And>xs :: nat list. length (sort xs) = length xs"
    using len by auto
  have "big ! 1073741823 = 0"
    by (rule zero) simp
  then have "get_splitters sort [big, [0]] 2 = Inr [[0], [0]]"
    using get_splitters_positions [OF pre] len
    by (simp add: sample_index_def)
  then have gs: "get_splitters_log sort [big, [0]] 2
      = ([Allocate Sample, Allocate All_samples, Collective Gather, Collective Bcast],
         Inr [[0], [0]])"
    by (rule get_splitters_log_Inr)
  have sorted: "sorted_by (<) big"
    using srt_sorted [OF std_sort_contract_sort, of big] by (simp add: srt)
  have "lower_bound (<) big 0 (length big) 0 = 0"
  proof (rule ccontr)
    assume "lower_bound (<) big 0 (length big) 0 \<noteq> 0"
    then have "0 < lower_bound (<) big 0 (length big) 0" by simp
    then have "big ! 0 < 0"
      using lower_bound_sorted(3) [OF strict_weak_order_less sorted, of 0 0 0] by simp
    then show False by simp
  qed
  then have sl_big: "split_loop (<) big [0] 0 = [0, 0x80000000]"
    by (simp add: len)
  have sl_small: "split_loop (<) [0 :: nat] [0] 0 = [0, 1]"
    by code_simp
  have gb: "get_buckets_log sort (<) 0 [big, [0]]
      = ([Allocate Sample, Allocate All_samples, Collective Gather, Collective Bcast,
          Allocate Send_split_counts, Allocate Recv_split_counts, Collective Alltoall,
          Allocate Send_displacements, Allocate Recv_displacements],
         Inl Bad_alloc)"
    unfolding get_buckets_log_def Let_def
    by (simp del: split_loop.simps
        add: gs sl_big sl_small MPI_Alltoall_def exclusive_sum_def)
  show ?thesis
    unfolding samplesort_log_def Let_def
    by (simp add: srt gb)
qed

lemma samplesort_log_oversized_run:
  "samplesort_log sort (<) 0 [replicate (2 ^ 31) 0, [0 :: nat]]
     = ([Allocate Sample, Allocate All_samples, Collective Gather, Collective Bcast,
         Allocate Send_split_counts, Allocate Recv_split_counts, Collective Alltoall,
         Allocate Send_displacements, Allocate Recv_displacements],
        Inl Bad_alloc)"
  by (rule samplesort_log_oversized) simp_all

section \<open>The properties of the specification\<close>

text \<open>
  C3. For unsigned ranges \<open>[l1, r1)\<close> and \<open>[l2, r2)\<close> with \<open>l1 \<le> r1\<close> and \<open>l2 \<le> r2\<close>,
  \<open>interval_overlap\<close> does not depend on the order of the two ranges, is 0 when the
  ranges have no point in common, and is \<open>min r1 r2 - max l1 l2\<close> when they intersect.
\<close>

theorem interval_overlap_spec:
  assumes "l1 \<le> r1" and "l2 \<le> r2"
  shows "interval_overlap l1 r1 l2 r2 = interval_overlap l2 r2 l1 r1
       \<and> ({l1..<r1} \<inter> {l2..<r2} = {} \<longrightarrow> interval_overlap l1 r1 l2 r2 = 0)
       \<and> ({l1..<r1} \<inter> {l2..<r2} \<noteq> {} \<longrightarrow>
            interval_overlap l1 r1 l2 r2 = min r1 r2 - max l1 l2)"
proof (intro conjI impI)
  have "unat (interval_overlap l1 r1 l2 r2) = unat (interval_overlap l2 r2 l1 r1)"
    using assms by (simp add: interval_overlap_nat min.commute max.commute)
  then show "interval_overlap l1 r1 l2 r2 = interval_overlap l2 r2 l1 r1"
    by (rule word_unat_eq_iff [THEN iffD2])
next
  assume "{l1..<r1} \<inter> {l2..<r2} = {}"
  then have "\<not> max l1 l2 < min r1 r2"
    by simp
  then have "\<not> unat (max l1 l2) < unat (min r1 r2)"
    unfolding word_less_nat_alt .
  then have "min (unat r1) (unat r2) \<le> max (unat l1) (unat l2)"
    unfolding unat_min unat_max not_less .
  then have "unat (interval_overlap l1 r1 l2 r2) = 0"
    using assms by (simp add: interval_overlap_nat)
  then show "interval_overlap l1 r1 l2 r2 = 0"
    by (simp add: unat_eq_0)
next
  assume "{l1..<r1} \<inter> {l2..<r2} \<noteq> {}"
  then have lt: "max l1 l2 < min r1 r2"
    by simp
  then have "max l1 l2 \<le> min r1 r2"
    by (rule less_imp_le)
  then have "unat (min r1 r2 - max l1 l2) = unat (min r1 r2) - unat (max l1 l2)"
    by (rule unat_sub)
  then have "unat (min r1 r2 - max l1 l2) = min (unat r1) (unat r2) - max (unat l1) (unat l2)"
    unfolding unat_min unat_max .
  then have "unat (interval_overlap l1 r1 l2 r2) = unat (min r1 r2 - max l1 l2)"
    using assms by (simp add: interval_overlap_nat)
  then show "interval_overlap l1 r1 l2 r2 = min r1 r2 - max l1 l2"
    by (rule word_unat_eq_iff [THEN iffD2])
qed

theorem interval_overlap_spec_witness:
  "(2 :: c_unsigned) \<le> 7 \<and> (5 :: c_unsigned) \<le> 9
   \<and> {2..<7} \<inter> {5..<9} \<noteq> ({} :: c_unsigned set)
   \<and> interval_overlap 2 7 5 9 = interval_overlap 5 9 2 7
   \<and> interval_overlap 2 7 5 9 = min 7 9 - max 2 5
   \<and> interval_overlap 2 7 5 9 = 2"
proof -
  have a: "(2 :: c_unsigned) \<le> 7" "(5 :: c_unsigned) \<le> 9"
    by simp_all
  have b: "{2..<7} \<inter> {5..<9} \<noteq> ({} :: c_unsigned set)"
    by simp
  have c: "interval_overlap 2 7 5 9 = 2"
    by (simp add: interval_overlap_def)
  show ?thesis
    using interval_overlap_spec [OF a] a b c by blast
qed

text \<open>
  C4 (the code fails here). In a job of two or more ranks, a rank whose segment is
  empty fails the index assertion of the sampling loop in \<open>get_splitters\<close> at the first
  sample: \<open>jump\<close> and \<open>leftover\<close> are 0, \<open>s_pos\<close> is still \<open>begin\<close>, and \<open>s_pos - 1\<close> lies
  before the segment. The whole call of samplesort fails with it.
\<close>

theorem get_splitters_empty_segment_fails:
  assumes "std_sort_contract cmp srt"
    and "2 \<le> length segs" and "length segs \<le> 65536" and "[] \<in> set segs"
  shows "local_samples ([] :: 'a list) (of_nat (length segs)) = Inl Assertion_failed
       \<and> samplesort srt cmp uninit segs = Inl Assertion_failed"
  using local_samples_empty_ranks [OF assms(2,3)] samplesort_empty_segment [OF assms]
  by simp

theorem get_splitters_empty_segment_fails_witness:
  "local_samples ([] :: nat list) 2 = Inl Assertion_failed
   \<and> samplesort sort (<) 9 [[], [1 :: nat]] = Inl Assertion_failed"
proof -
  have pre: "2 \<le> length [[], [1 :: nat]]" "length [[], [1 :: nat]] \<le> 65536"
    "[] \<in> set [[], [1 :: nat]]"
    by simp_all
  show ?thesis
    using get_splitters_empty_segment_fails [OF std_sort_contract_sort pre, of 9] by simp
qed

text \<open>
  C5, as the code has it. No capacity check precedes the collective calls. In every job of
  2 to 65536 ranks whose segments are non-empty and shorter than \<open>2^32\<close> elements,
  whatever their total, samplesort allocates \<open>sample\<close> and \<open>all_samples\<close>, calls
  \<open>MPI_Gather\<close> and \<open>MPI_Bcast\<close>, allocates the two count arrays and calls \<open>MPI_Alltoall\<close>,
  before it returns or fails in any way. And the displacements that \<open>exclusive_sum\<close>
  computes are the exact prefix sums of the counts whenever the counts total less than
  \<open>2^31\<close>.
\<close>

theorem samplesort_no_capacity_check:
  assumes "std_sort_contract cmp srt"
    and "2 \<le> length segs" and "length segs \<le> 65536"
    and "\<forall>seg \<in> set segs. 0 < length seg \<and> length seg < 2 ^ 32"
  shows "(\<exists>es r. samplesort_log srt cmp uninit segs
            = ([Allocate Sample, Allocate All_samples, Collective Gather, Collective Bcast,
                Allocate Send_split_counts, Allocate Recv_split_counts, Collective Alltoall]
                 @ es, r))
       \<and> (\<forall>arr n i. 1 \<le> n \<and> n - 1 \<le> length arr \<and> sum_list (map unat arr) < 2 ^ 31 \<and> i < n
             \<longrightarrow> sint (exclusive_sum arr n ! i) = int (sum_list (take i (map unat arr))))"
proof (intro conjI allI impI)
  show "\<exists>es r. samplesort_log srt cmp uninit segs
      = ([Allocate Sample, Allocate All_samples, Collective Gather, Collective Bcast,
          Allocate Send_split_counts, Allocate Recv_split_counts, Collective Alltoall]
           @ es, r)"
    using srt_length [OF assms(1)] assms(2,3,4) by (intro samplesort_log_collectives) simp_all
next
  fix arr :: "c_int list" and n i
  assume "1 \<le> n \<and> n - 1 \<le> length arr \<and> sum_list (map unat arr) < 2 ^ 31 \<and> i < n"
  then show "sint (exclusive_sum arr n ! i) = int (sum_list (take i (map unat arr)))"
    by (intro exclusive_sum_exact) simp_all
qed

theorem samplesort_no_capacity_check_witness:
  "samplesort_log sort (<) 9 [[3, 1], [2, 0 :: nat]]
     = ([Allocate Sample, Allocate All_samples, Collective Gather, Collective Bcast,
         Allocate Send_split_counts, Allocate Recv_split_counts, Collective Alltoall,
         Allocate Send_displacements, Allocate Recv_displacements, Allocate Bucket_elems,
         Collective Alltoallv, Allocate All_sizes, Collective Allgather, Allocate Send_counts,
         Allocate Recv_counts, Allocate Send_displacements, Allocate Recv_displacements,
         Collective Alltoallv],
        Inr [[0, 1], [2, 3]])
   \<and> sint (exclusive_sum [3, 4, 5] 3 ! 2) = 7"
proof -
  have run: "samplesort_log sort (<) 9 [[3, 1], [2, 0 :: nat]]
     = ([Allocate Sample, Allocate All_samples, Collective Gather, Collective Bcast,
         Allocate Send_split_counts, Allocate Recv_split_counts, Collective Alltoall,
         Allocate Send_displacements, Allocate Recv_displacements, Allocate Bucket_elems,
         Collective Alltoallv, Allocate All_sizes, Collective Allgather, Allocate Send_counts,
         Allocate Recv_counts, Allocate Send_displacements, Allocate Recv_displacements,
         Collective Alltoallv],
        Inr [[0, 1], [2, 3]])"
    by code_simp
  have pre: "2 \<le> length [[3, 1], [2, 0 :: nat]]" "length [[3, 1], [2, 0 :: nat]] \<le> 65536"
    "\<forall>seg \<in> set [[3, 1], [2, 0 :: nat]]. 0 < length seg \<and> length seg < 2 ^ 32"
    by simp_all
  have counts: "1 \<le> (3 :: nat) \<and> (3 :: nat) - 1 \<le> length [3, 4, 5 :: c_int]
      \<and> sum_list (map unat [3, 4, 5 :: c_int]) < 2 ^ 31 \<and> (2 :: nat) < 3"
    by simp
  from samplesort_no_capacity_check [OF std_sort_contract_sort pre, of 9] counts
  have "sint (exclusive_sum [3, 4, 5 :: c_int] 3 ! 2)
      = int (sum_list (take 2 (map unat [3, 4, 5 :: c_int])))"
    by blast
  then show ?thesis
    using run by simp
qed

text \<open>
  C5, as the specification has it, fails. Two ranks hold \<open>2^31\<close> elements and one element,
  \<open>2^31 + 1\<close> in total, which no \<open>int\<close> holds. Nothing checks it: \<open>MPI_Gather\<close>, \<open>MPI_Bcast\<close>
  and \<open>MPI_Alltoall\<close> are called, the latter with the count \<open>2^31\<close> already wrapped to a
  negative \<open>int\<close>, and the call fails only afterwards, when rank 1 asks \<open>new\<close> for a bucket
  of \<open>bucket_size = -2^31 + 1\<close> elements.
\<close>

theorem samplesort_oversized_run_unchecked:
  "samplesort_log sort (<) 0 [replicate (2 ^ 31) 0, [0 :: nat]]
     = ([Allocate Sample, Allocate All_samples, Collective Gather, Collective Bcast,
         Allocate Send_split_counts, Allocate Recv_split_counts, Collective Alltoall,
         Allocate Send_displacements, Allocate Recv_displacements],
        Inl Bad_alloc)"
  by (rule samplesort_log_oversized_run)

text \<open>
  C9. With at most one rank, samplesort is the local sort of the segment and nothing
  else: it returns the segment sorted by \<open>std::sort\<close>, and its log is empty, that is, it
  makes no collective call and allocates no sample, count, displacement or bucket buffer.
\<close>

theorem samplesort_single_participant:
  assumes "length segs \<le> 1"
  shows "samplesort_log srt cmp uninit segs = ([], Inr (map srt segs))
       \<and> samplesort srt cmp uninit segs = Inr (map srt segs)"
  using samplesort_log_single [OF assms] samplesort_single [OF assms] by simp

theorem samplesort_single_participant_witness:
  "samplesort_log sort (<) 0 [[3, 1, 2 :: nat]] = ([], Inr [[1, 2, 3]])
   \<and> samplesort sort (<) 0 [[3, 1, 2 :: nat]] = Inr [[1, 2, 3]]"
proof -
  have a: "length [[3, 1, 2 :: nat]] \<le> 1" by simp
  show ?thesis
    using samplesort_single_participant [OF a, of sort "(<)" 0] by simp
qed

text \<open>
  C1. For every number of ranks and every distribution of the elements (the total below
  \<open>2^31\<close> and at most \<open>65536\<close> ranks, so that every count fits its \<open>int\<close> or \<open>unsigned\<close>):
  whenever samplesort returns, the ranks' segments concatenated in rank order are
  sorted by the comparator; and it does return whenever there is one rank or no rank
  has an empty segment.
\<close>

theorem samplesort_total_order:
  assumes "strict_weak_order cmp" and "std_sort_contract cmp srt"
    and "sum_list (map length segs) < 2 ^ 31" and "length segs \<le> 65536"
  shows "(\<forall>out. samplesort srt cmp uninit segs = Inr out \<longrightarrow> sorted_by cmp (concat out))
       \<and> (length segs \<le> 1 \<or> [] \<notin> set segs \<longrightarrow>
            (\<exists>out. samplesort srt cmp uninit segs = Inr out))"
  using assms
proof (cases rule: samplesort_cases [where uninit = uninit])
  case single
  then show ?thesis
    using sorted_by_single_rank [OF assms(2)] by simp
next
  case failed
  then show ?thesis by simp
next
  case (sorted G)
  have "concat (chop (map length segs) G) = G"
    using mset_length_concat [OF sorted(5)] by (rule concat_chop_all)
  with sorted show ?thesis by simp
qed

theorem samplesort_total_order_witness:
  "samplesort sort (<) 9 [[5, 0, 9], [3, 11, 7], [1, 8, 2], [10, 4, 6 :: nat]]
     = Inr [[0, 1, 2], [3, 4, 5], [6, 7, 8], [9, 10, 11]]
   \<and> sorted_by (<) (concat [[0, 1, 2], [3, 4, 5], [6, 7, 8], [9, 10, 11 :: nat]])"
proof -
  have run: "samplesort sort (<) 9 [[5, 0, 9], [3, 11, 7], [1, 8, 2], [10, 4, 6 :: nat]]
      = Inr [[0, 1, 2], [3, 4, 5], [6, 7, 8], [9, 10, 11]]"
    by code_simp
  have fits: "sum_list (map length [[5, 0, 9], [3, 11, 7], [1, 8, 2], [10, 4, 6 :: nat]]) < 2 ^ 31"
    "length [[5, 0, 9], [3, 11, 7], [1, 8, 2], [10, 4, 6 :: nat]] \<le> 65536"
    by simp_all
  show ?thesis
    using samplesort_total_order [OF strict_weak_order_less std_sort_contract_sort fits, of 9] run
    by blast
qed

text \<open>
  C10. Whenever samplesort returns (counts within capacity as in C1), the elements held
  by all ranks together are, as a multiset, the elements held before the call.
\<close>

theorem samplesort_permutes:
  assumes "strict_weak_order cmp" and "std_sort_contract cmp srt"
    and "sum_list (map length segs) < 2 ^ 31" and "length segs \<le> 65536"
    and "samplesort srt cmp uninit segs = Inr out"
  shows "mset (concat out) = mset (concat segs)"
  using assms(1-4)
proof (cases rule: samplesort_cases [where uninit = uninit])
  case single
  then show ?thesis
    using assms(5) mset_concat_map_srt [OF assms(2)] by auto
next
  case failed
  then show ?thesis using assms(5) by simp
next
  case (sorted G)
  have "concat (chop (map length segs) G) = G"
    using mset_length_concat [OF sorted(5)] by (rule concat_chop_all)
  with sorted assms(5) show ?thesis by simp
qed

theorem samplesort_permutes_witness:
  "samplesort sort (<) 9 [[7, 1, 2, 4], [2], [2, 2, 1 :: nat]] = Inr [[1, 1, 2, 2], [2], [2, 4, 7]]
   \<and> mset (concat [[1, 1, 2, 2], [2], [2, 4, 7 :: nat]])
       = mset (concat [[7, 1, 2, 4], [2], [2, 2, 1]])"
proof -
  have run: "samplesort sort (<) 9 [[7, 1, 2, 4], [2], [2, 2, 1 :: nat]]
      = Inr [[1, 1, 2, 2], [2], [2, 4, 7]]"
    by code_simp
  have fits: "sum_list (map length [[7, 1, 2, 4], [2], [2, 2, 1 :: nat]]) < 2 ^ 31"
    "length [[7, 1, 2, 4], [2], [2, 2, 1 :: nat]] \<le> 65536"
    by simp_all
  show ?thesis
    using samplesort_permutes [OF strict_weak_order_less std_sort_contract_sort fits run] run
    by blast
qed

text \<open>
  C2. Whenever samplesort returns (counts within capacity as in C1), every rank's segment
  has the size it had before the call; and in \<open>redistribute\<close> the receive counts that a
  rank computes from the interval overlaps add up to the size of its segment.
\<close>

theorem samplesort_count_preservation:
  assumes "strict_weak_order cmp" and "std_sort_contract cmp srt"
    and "sum_list (map length segs) < 2 ^ 31" and "length segs \<le> 65536"
  shows "(\<forall>out. samplesort srt cmp uninit segs = Inr out \<longrightarrow> map length out = map length segs)
       \<and> (\<forall>buckets k.
             2 \<le> length segs \<and> get_buckets srt cmp uninit (map srt segs) = Inr buckets
             \<and> k < length segs \<longrightarrow>
             sum_list (map sint (snd (redistribute_counts
                 (concat (map2 (\<lambda>seg (bucket_elems, bucket_size).
                                  [of_nat (length seg), bucket_size]) (map srt segs) buckets))
                 (of_nat (length segs)) k)))
               = int (length (segs ! k)))"
proof (intro conjI allI impI)
  fix out
  assume out: "samplesort srt cmp uninit segs = Inr out"
  from assms show "map length out = map length segs"
  proof (cases rule: samplesort_cases [where uninit = uninit])
    case single
    then show ?thesis
      using out by (auto simp: srt_length [OF assms(2)])
  next
    case failed
    then show ?thesis using out by simp
  next
    case (sorted G)
    have "map length (chop (map length segs) G) = map length segs"
      using mset_length_concat [OF sorted(5)] by (rule length_chop_all)
    with sorted out show ?thesis by simp
  qed
next
  fix buckets k
  assume a: "2 \<le> length segs \<and> get_buckets srt cmp uninit (map srt segs) = Inr buckets
      \<and> k < length segs"
  note len = srt_length [OF assms(2)]
  define ss where "ss = map srt segs"
  have ss: "length ss = length segs" "map length ss = map length segs"
    by (simp_all add: ss_def len)
  have gb: "get_buckets srt cmp uninit ss = Inr buckets"
    using a by (simp add: ss_def)
  have p: "2 \<le> length ss" "length ss \<le> 65536" "sum_list (map length ss) < 2 ^ 31"
    using a assms(3,4) by (simp_all add: ss)
  note sz = get_buckets_sizes [OF p(1,2,3) len gb]
  have "sum_list (map sint (snd (redistribute_counts
          (concat (map2 (\<lambda>seg (bucket_elems, bucket_size).
                           [of_nat (length seg), bucket_size]) ss buckets))
          (of_nat (length ss)) k)))
      = int (length (ss ! k))"
    using sz(1,2,3) p a by (intro recv_counts_total_ranks) (simp_all add: ss)
  then show "sum_list (map sint (snd (redistribute_counts
          (concat (map2 (\<lambda>seg (bucket_elems, bucket_size).
                           [of_nat (length seg), bucket_size]) (map srt segs) buckets))
          (of_nat (length segs)) k)))
      = int (length (segs ! k))"
    using a by (simp add: ss_def len)
qed

theorem samplesort_count_preservation_witness:
  "samplesort sort (<) 9 [[7, 1, 2, 4], [2], [2, 2, 1 :: nat]] = Inr [[1, 1, 2, 2], [2], [2, 4, 7]]
   \<and> map length [[1, 1, 2, 2], [2], [2, 4, 7 :: nat]]
       = map length [[7, 1, 2, 4], [2], [2, 2, 1 :: nat]]"
proof -
  have run: "samplesort sort (<) 9 [[7, 1, 2, 4], [2], [2, 2, 1 :: nat]]
      = Inr [[1, 1, 2, 2], [2], [2, 4, 7]]"
    by code_simp
  have fits: "sum_list (map length [[7, 1, 2, 4], [2], [2, 2, 1 :: nat]]) < 2 ^ 31"
    "length [[7, 1, 2, 4], [2], [2, 2, 1 :: nat]] \<le> 65536"
    by simp_all
  show ?thesis
    using samplesort_count_preservation
      [OF strict_weak_order_less std_sort_contract_sort fits, of 9] run
    by blast
qed

text \<open>
  C8. The sizes of the ranks' segments add up to the same \<open>N\<close> at every stage boundary
  (counts within capacity as in C1): after the local sort, after the exchange in
  \<open>get_buckets\<close> (both the \<open>bucket_size\<close> values and the buckets themselves), and in
  what samplesort returns.
\<close>

theorem samplesort_total_size_invariant:
  assumes "strict_weak_order cmp" and "std_sort_contract cmp srt"
    and "sum_list (map length segs) < 2 ^ 31" and "length segs \<le> 65536"
  shows "sum_list (map length (map srt segs)) = sum_list (map length segs)
       \<and> (\<forall>buckets.
             2 \<le> length segs \<and> get_buckets srt cmp uninit (map srt segs) = Inr buckets \<longrightarrow>
             sum_list (map (\<lambda>(bucket_elems, bucket_size). sint bucket_size) buckets)
               = int (sum_list (map length segs))
             \<and> sum_list (map (\<lambda>(bucket_elems, bucket_size). length bucket_elems) buckets)
               = sum_list (map length segs))
       \<and> (\<forall>out. samplesort srt cmp uninit segs = Inr out \<longrightarrow>
             sum_list (map length out) = sum_list (map length segs))"
proof (intro conjI allI impI)
  note len = srt_length [OF assms(2)]
  show "sum_list (map length (map srt segs)) = sum_list (map length segs)"
    by (simp add: len comp_def)
  fix buckets
  assume a: "2 \<le> length segs \<and> get_buckets srt cmp uninit (map srt segs) = Inr buckets"
  define ss where "ss = map srt segs"
  have ss: "length ss = length segs" "map length ss = map length segs"
    by (simp_all add: ss_def len)
  have gb: "get_buckets srt cmp uninit ss = Inr buckets"
    using a by (simp add: ss_def)
  have p: "2 \<le> length ss" "length ss \<le> 65536" "sum_list (map length ss) < 2 ^ 31"
    using a assms(3,4) by (simp_all add: ss)
  note sz = get_buckets_sizes [OF p(1,2,3) len gb]
  show elems: "sum_list (map (\<lambda>(bucket_elems, bucket_size). length bucket_elems) buckets)
      = sum_list (map length segs)"
    using sz(3) by (simp add: ss split_def)
  have "map (\<lambda>b. sint (snd b)) buckets
      = map (\<lambda>n. sint (of_nat n :: c_int)) (map (\<lambda>b. length (fst b)) buckets)"
    by (rule nth_equalityI) (simp_all add: sz(1,2))
  also have "sum_list \<dots> = int (sum_list (map (\<lambda>b. length (fst b)) buckets))"
    by (rule sum_list_sint_of_nat) (use sz(3) p(3) in simp)
  finally have "sum_list (map (\<lambda>b. sint (snd b)) buckets) = int (sum_list (map length segs))"
    unfolding sz(3) ss .
  then show "sum_list (map (\<lambda>(bucket_elems, bucket_size). sint bucket_size) buckets)
      = int (sum_list (map length segs))"
    by (simp only: split_def)
next
  fix out
  assume out: "samplesort srt cmp uninit segs = Inr out"
  from assms show "sum_list (map length out) = sum_list (map length segs)"
  proof (cases rule: samplesort_cases [where uninit = uninit])
    case single
    then show ?thesis
      using out by (auto simp: srt_length [OF assms(2)] comp_def)
  next
    case failed
    then show ?thesis using out by simp
  next
    case (sorted G)
    have "map length (chop (map length segs) G) = map length segs"
      using mset_length_concat [OF sorted(5)] by (rule length_chop_all)
    with sorted out show ?thesis by simp
  qed
qed

theorem samplesort_total_size_invariant_witness:
  "samplesort sort (<) 9 [[7, 1, 2, 4], [2], [2, 2, 1 :: nat]] = Inr [[1, 1, 2, 2], [2], [2, 4, 7]]
   \<and> sum_list (map length [[1, 1, 2, 2], [2], [2, 4, 7 :: nat]])
       = sum_list (map length [[7, 1, 2, 4], [2], [2, 2, 1 :: nat]])"
proof -
  have run: "samplesort sort (<) 9 [[7, 1, 2, 4], [2], [2, 2, 1 :: nat]]
      = Inr [[1, 1, 2, 2], [2], [2, 4, 7]]"
    by code_simp
  have fits: "sum_list (map length [[7, 1, 2, 4], [2], [2, 2, 1 :: nat]]) < 2 ^ 31"
    "length [[7, 1, 2, 4], [2], [2, 2, 1 :: nat]] \<le> 65536"
    by simp_all
  show ?thesis
    using samplesort_total_size_invariant
      [OF strict_weak_order_less std_sort_contract_sort fits, of 9] run
    by blast
qed

text \<open>
  C6. The bucketing loop of \<open>get_buckets\<close> on one rank, for a sorted segment (shorter than
  \<open>2^31\<close>) and splitters \<open>sps\<close>, with \<open>P = length sps + 1\<close>: it computes \<open>P\<close> counts that
  add up to the size of the segment; the blocks that \<open>MPI_Alltoallv\<close> sends with these
  counts and their exclusive sums are consecutive sub-ranges that make up the segment;
  every element of bucket \<open>i\<close> is less than splitter \<open>i\<close> and not less than any earlier
  splitter, so that \<open>i\<close> is the first splitter it is less than; the elements of the
  last bucket are not less than any splitter; and, the splitters being sorted, every
  element of an earlier bucket is less than the last splitter.
\<close>

theorem get_buckets_bucketing:
  assumes "strict_weak_order cmp" and "sorted_by cmp seg" and "length seg < 2 ^ 31"
  shows "length (split_loop cmp seg sps 0) = length sps + 1
       \<and> sum_list (map sint (split_loop cmp seg sps 0)) = int (length seg)
       \<and> length (chop (map unat (split_loop cmp seg sps 0)) seg) = length sps + 1
       \<and> concat (chop (map unat (split_loop cmp seg sps 0)) seg) = seg
       \<and> (\<forall>i \<le> length sps.
             send_block (seg, split_loop cmp seg sps 0,
                 exclusive_sum (split_loop cmp seg sps 0) (length sps + 1)) i
               = Inr (chop (map unat (split_loop cmp seg sps 0)) seg ! i)
             \<and> (\<forall>x \<in> set (chop (map unat (split_loop cmp seg sps 0)) seg ! i).
                   (i < length sps \<longrightarrow> cmp x (sps ! i)) \<and> (\<forall>j<i. \<not> cmp x (sps ! j))))
       \<and> (sorted_by cmp sps \<longrightarrow>
             (\<forall>i < length sps. \<forall>x \<in> set (chop (map unat (split_loop cmp seg sps 0)) seg ! i).
                cmp x (last sps)))"
proof -
  define c where "c = split_loop cmp seg sps 0"
  define bs where "bs = chop (map unat c) seg"
  have n32: "length seg < 2 ^ 32" using assms(3) by simp
  have lc: "length c = length sps + 1"
    by (simp add: c_def length_split_loop)
  have sum: "sum_list (map unat c) = length seg"
    unfolding c_def using split_loop_sizes [OF n32, of 0 cmp sps] by simp
  have "map sint c = map (\<lambda>n. sint (of_nat n :: c_int)) (map unat c)"
    by (simp add: comp_def)
  also have "sum_list \<dots> = int (sum_list (map unat c))"
    by (rule sum_list_sint_of_nat) (use sum assms(3) in simp)
  finally have ssum: "sum_list (map sint c) = int (length seg)"
    unfolding sum .
  have lbs: "length bs = length sps + 1"
    by (simp add: bs_def length_chop lc)
  have cat: "concat bs = seg"
    unfolding bs_def using sum by (rule concat_chop_all)
  have blk: "send_block (seg, c, exclusive_sum c (length sps + 1)) i = Inr (bs ! i)"
    if "i \<le> length sps" for i
    unfolding c_def bs_def using assms(3) that by (rule split_loop_blocks)
  have bucket: "(i < length sps \<longrightarrow> cmp x (sps ! i)) \<and> (\<forall>j<i. \<not> cmp x (sps ! j))"
    if "i \<le> length sps" "x \<in> set (bs ! i)" for i x
    using split_loop_buckets [OF assms(1,2) n32, of 0 i sps x] that
    by (simp add: bs_def c_def)
  have last: "cmp x (last sps)"
    if srt: "sorted_by cmp sps" and i: "i < length sps" and x: "x \<in> set (bs ! i)" for i x
  proof -
    have less: "cmp x (sps ! i)"
      using bucket [of i x] i x by simp
    have ne: "sps \<noteq> []" using i by auto
    show ?thesis
    proof (cases "i = length sps - 1")
      case True
      then show ?thesis
        using less ne by (simp add: last_conv_nth)
    next
      case False
      then have "i < length sps - 1" using i by simp
      then have "\<not> cmp (sps ! (length sps - 1)) (sps ! i)"
        using sorted_by_nth [OF srt, of i "length sps - 1"] i by simp
      then have "cmp x (sps ! (length sps - 1))"
        using swo_less_le [OF assms(1) less] by blast
      then show ?thesis
        using ne by (simp add: last_conv_nth)
    qed
  qed
  show ?thesis
    unfolding c_def [symmetric] bs_def [symmetric]
    using lc ssum lbs cat blk bucket last by blast
qed

theorem get_buckets_bucketing_witness:
  "split_loop (<) [1, 3, 5, 7, 9 :: nat] [4, 8] 0 = [2, 2, 1]
   \<and> chop (map unat (split_loop (<) [1, 3, 5, 7, 9 :: nat] [4, 8] 0)) [1, 3, 5, 7, 9]
       = [[1, 3], [5, 7], [9]]
   \<and> concat (chop (map unat (split_loop (<) [1, 3, 5, 7, 9 :: nat] [4, 8] 0)) [1, 3, 5, 7, 9])
       = [1, 3, 5, 7, 9]
   \<and> sum_list (map sint (split_loop (<) [1, 3, 5, 7, 9 :: nat] [4, 8] 0)) = 5"
proof -
  have run: "split_loop (<) [1, 3, 5, 7, 9 :: nat] [4, 8] 0 = [2, 2, 1]"
    by code_simp
  have blocks: "chop (map unat [2, 2, 1 :: c_int]) [1, 3, 5, 7, 9 :: nat] = [[1, 3], [5, 7], [9]]"
    by simp
  have pre: "sorted_by (<) [1, 3, 5, 7, 9 :: nat]" "length [1, 3, 5, 7, 9 :: nat] < 2 ^ 31"
    by (simp_all add: sorted_by_def)
  show ?thesis
    using get_buckets_bucketing [OF strict_weak_order_less pre, of "[4, 8]"] run blocks
    by simp
qed

text \<open>
  C7. The sampling of \<open>get_splitters\<close>, for 2 to 65536 ranks with non-empty segments:
  a rank with \<open>n\<close> elements takes as its \<open>i\<close>-th sample the element at
  \<open>sample_index n P i\<close>, the position reached by \<open>i + 1\<close> steps of \<open>n div P\<close> with one
  more for each of the first \<open>n mod P\<close> steps; the coordinator takes as \<open>i\<close>-th splitter
  the element at index \<open>(i + 1) * (P - 1) - 1\<close> of the sorted \<open>P * (P - 1)\<close> samples; and
  every rank ends up with these splitters.
\<close>

theorem get_splitters_sampling:
  assumes "std_sort_contract cmp srt"
    and "2 \<le> length segs" and "length segs \<le> 65536"
    and "\<forall>seg \<in> set segs. 0 < length seg \<and> length seg < 2 ^ 32"
  shows "(\<forall>seg \<in> set segs.
            local_samples seg (of_nat (length segs))
              = Inr (map (\<lambda>i. seg ! sample_index (length seg) (length segs) i)
                       [0..<length segs - 1])
            \<and> Suc (sample_index (length seg) (length segs) 0)
                = length seg div length segs + (if 0 < length seg mod length segs then 1 else 0)
            \<and> (\<forall>i. Suc (sample_index (length seg) (length segs) (Suc i))
                  = Suc (sample_index (length seg) (length segs) i) + length seg div length segs
                    + (if Suc i < length seg mod length segs then 1 else 0)))
       \<and> (\<forall>all_samples. length all_samples = length segs * (length segs - 1) \<longrightarrow>
            global_splitters srt all_samples (of_nat (length segs))
              = Inr (map (\<lambda>i. srt all_samples ! ((i + 1) * (length segs - 1) - 1))
                       [0..<length segs - 1]))
       \<and> get_splitters srt segs (of_nat (length segs))
           = Inr (replicate (length segs)
               (map (\<lambda>i. srt (concat (map (\<lambda>seg. map (\<lambda>i. seg ! sample_index (length seg) (length segs) i)
                                               [0..<length segs - 1]) segs))
                           ! ((i + 1) * (length segs - 1) - 1))
                  [0..<length segs - 1]))"
proof (intro conjI ballI allI impI)
  note len = srt_length [OF assms(1)]
  fix seg assume seg: "seg \<in> set segs"
  then have n: "0 < length seg" "length seg < 2 ^ 32"
    using assms(4) by simp_all
  show "local_samples seg (of_nat (length segs))
      = Inr (map (\<lambda>i. seg ! sample_index (length seg) (length segs) i) [0..<length segs - 1])"
    unfolding sample_index_def using assms(2,3) n by (rule local_samples_positions)
  have pos: "1 \<le> (i + 1) * (length seg div length segs) + min (i + 1) (length seg mod length segs)"
    for i
  proof (cases "length seg div length segs = 0")
    case True
    then have "length seg mod length segs = length seg"
      by (metis add.left_neutral mult_div_mod_eq mult_zero_right)
    moreover have "1 \<le> min (i + 1) (length seg)"
      using n(1) by linarith
    ultimately show ?thesis by simp
  next
    case False
    then show ?thesis by simp
  qed
  show "Suc (sample_index (length seg) (length segs) 0)
      = length seg div length segs + (if 0 < length seg mod length segs then 1 else 0)"
    using pos [of 0] by (simp add: sample_index_def min_def split: if_splits)
  fix i
  show "Suc (sample_index (length seg) (length segs) (Suc i))
      = Suc (sample_index (length seg) (length segs) i) + length seg div length segs
        + (if Suc i < length seg mod length segs then 1 else 0)"
    using pos [of i] pos [of "Suc i"] by (simp add: sample_index_def min_def split: if_splits)
next
  fix all_samples :: "'a list"
  assume "length all_samples = length segs * (length segs - 1)"
  then show "global_splitters srt all_samples (of_nat (length segs))
      = Inr (map (\<lambda>i. srt all_samples ! ((i + 1) * (length segs - 1) - 1)) [0..<length segs - 1])"
    using assms(2,3) srt_length [OF assms(1)] by (intro global_splitters_positions) simp_all
next
  show "get_splitters srt segs (of_nat (length segs))
      = Inr (replicate (length segs)
          (map (\<lambda>i. srt (concat (map (\<lambda>seg. map (\<lambda>i. seg ! sample_index (length seg) (length segs) i)
                                          [0..<length segs - 1]) segs))
                      ! ((i + 1) * (length segs - 1) - 1))
             [0..<length segs - 1]))"
    using assms(2,3,4) srt_length [OF assms(1)] by (intro get_splitters_positions) simp_all
qed

theorem get_splitters_sampling_witness:
  "get_splitters sort [[0, 5, 9], [3, 7, 11], [1, 2, 8], [4, 6, 10 :: nat]] 4
     = Inr [[2, 5, 8], [2, 5, 8], [2, 5, 8], [2, 5, 8]]
   \<and> local_samples [1, 2, 3, 4, 5, 6, 7, 8, 9, 10 :: nat] 4 = Inr [3, 6, 8]
   \<and> map (sample_index 10 4) [0, 1, 2] = [2, 5, 7]"
proof -
  have pre: "2 \<le> length [[0, 5, 9], [3, 7, 11], [1, 2, 8], [4, 6, 10 :: nat]]"
    "length [[0, 5, 9], [3, 7, 11], [1, 2, 8], [4, 6, 10 :: nat]] \<le> 65536"
    "\<forall>seg \<in> set [[0, 5, 9], [3, 7, 11], [1, 2, 8], [4, 6, 10 :: nat]].
       0 < length seg \<and> length seg < 2 ^ 32"
    by simp_all
  have a: "get_splitters sort [[0, 5, 9], [3, 7, 11], [1, 2, 8], [4, 6, 10 :: nat]] 4
      = Inr [[2, 5, 8], [2, 5, 8], [2, 5, 8], [2, 5, 8]]"
    using get_splitters_sampling [OF std_sort_contract_sort pre]
    by (simp add: sample_index_def upt_conv_Cons)
  have b: "local_samples [1, 2, 3, 4, 5, 6, 7, 8, 9, 10 :: nat] 4 = Inr [3, 6, 8]"
    by code_simp
  have c: "map (sample_index 10 4) [0, 1, 2] = [2, 5, 7]"
    by (simp add: sample_index_def)
  show ?thesis
    using a b c by blast
qed

end
